theory Spec2Isabelle
  imports
    Complex_Main
    "HOL-Library.AList"
    "HOL-Library.Char_ord"
    "HOL-Library.List_Lexorder"
    "HOL-Library.Multiset"
    "HOL-Library.Product_Lexorder"
begin

section \<open>Data model of \<^verbatim>\<open>Djikastra.py\<close>\<close>

text \<open>
  Nodes are Python strings. Python compares strings code point by code point, a proper
  prefix being smaller; on the byte strings of HOL that is the lexicographic order of
  \<open>List_Lexorder\<close> over the character order of \<open>Char_ord\<close>.

  Python floats are abstracted to the reals: \<open>float('inf')\<close> is the extra value
  \<open>PInf\<close> of the type \<open>dist\<close>, every other number is a real.
\<close>

type_synonym node = string

record risk =
  network :: real
  gps :: real
  data :: real

record attributes =
  time :: real
  cost :: real
  it_risk :: risk

text \<open>
  A \<^verbatim>\<open>Dict[str, Dict[str, Dict]]\<close> in insertion order: the keys of a dictionary are
  distinct (\<open>wf_graph\<close>), \<^verbatim>\<open>d.get(k)\<close> is \<open>map_of d k\<close>, \<^verbatim>\<open>d.items()\<close> is the list
  itself and \<^verbatim>\<open>d[k] = v\<close> is \<open>AList.update k v d\<close> (the value is replaced in place when
  the key is present, the pair is appended otherwise).
\<close>

type_synonym adjacency = "(node \<times> attributes) list"
type_synonym graph = "(node \<times> adjacency) list"

definition wf_graph :: "graph \<Rightarrow> bool" where
  "wf_graph g \<longleftrightarrow> distinct (map fst g) \<and> (\<forall>nb \<in> snd ` set g. distinct (map fst nb))"

datatype exn = KeyError node | IndexError | ValueError

datatype dist = Fin real | PInf

text \<open>\<open>dist_less a b\<close> is Python's \<^verbatim>\<open>a < b\<close> on numbers that may be \<open>inf\<close>.\<close>

fun dist_less :: "dist \<Rightarrow> dist \<Rightarrow> bool" where
  "dist_less (Fin a) (Fin b) = (a < b)"
| "dist_less (Fin a) PInf = True"
| "dist_less PInf b = False"

record dispatcher =
  self_G :: graph
  self_G_prime :: graph
  self_V :: "node set"

subsection \<open>AHP weights set by \<^verbatim>\<open>__init__\<close>\<close>

definition w_T :: real where "w_T = 0.619"
definition w_R :: real where "w_R = 0.284"
definition w_C :: real where "w_C = 0.096"
definition v_net :: real where "v_net = 0.623"
definition v_gps :: real where "v_gps = 0.239"
definition v_data :: real where "v_data = 0.137"

subsection \<open>\<^verbatim>\<open>_reverse_graph\<close> and \<^verbatim>\<open>_get_all_nodes\<close>\<close>

text \<open>The sequence of \<^verbatim>\<open>add\<close> calls of the vertex collection loop.\<close>

definition collect_vertices :: "graph \<Rightarrow> node list" where
  "collect_vertices g = concat (map (\<lambda>(u, neighbors). u # map fst neighbors) g)"

definition get_all_nodes :: "graph \<Rightarrow> node set" where
  "get_all_nodes g = set (collect_vertices g)"

text \<open>
  \<^verbatim>\<open>for vertex in all_vertices: G_prime[vertex] = {}\<close>. Python does not specify the order
  in which a set is iterated (for strings it changes with the hash seed of the process),
  so that order is the parameter \<open>vs\<close>: any enumeration of \<open>all_vertices\<close>.
\<close>

definition init_vertices :: "node list \<Rightarrow> graph" where
  "init_vertices vs = fold (\<lambda>vertex gp. AList.update vertex [] gp) vs []"

definition set_order :: "node set \<Rightarrow> node list \<Rightarrow> bool" where
  "set_order A vs \<longleftrightarrow> distinct vs \<and> set vs = A"

text \<open>\<^verbatim>\<open>G_prime[v][u] = attributes.copy()\<close>: the subscript \<^verbatim>\<open>G_prime[v]\<close> raises on a missing key.\<close>

fun reverse_neighbors :: "node \<Rightarrow> adjacency \<Rightarrow> graph \<Rightarrow> exn + graph" where
  "reverse_neighbors u [] gp = Inr gp"
| "reverse_neighbors u ((v, a) # rest) gp =
     (case map_of gp v of
        None \<Rightarrow> Inl (KeyError v)
      | Some inner \<Rightarrow> reverse_neighbors u rest (AList.update v (AList.update u a inner) gp))"

fun reverse_edges :: "graph \<Rightarrow> graph \<Rightarrow> exn + graph" where
  "reverse_edges [] gp = Inr gp"
| "reverse_edges ((u, neighbors) # rest) gp =
     (case reverse_neighbors u neighbors gp of
        Inl e \<Rightarrow> Inl e
      | Inr gp' \<Rightarrow> reverse_edges rest gp')"

definition reverse_graph :: "node list \<Rightarrow> graph \<Rightarrow> exn + graph" where
  "reverse_graph vs g = reverse_edges g (init_vertices vs)"

text \<open>The constructor \<^verbatim>\<open>__init__\<close>.\<close>

definition init :: "node list \<Rightarrow> graph \<Rightarrow> exn + dispatcher" where
  "init vs original_graph =
     (case reverse_graph vs original_graph of
        Inl e \<Rightarrow> Inl e
      | Inr gp \<Rightarrow> Inr \<lparr>self_G = original_graph, self_G_prime = gp,
                      self_V = get_all_nodes original_graph\<rparr>)"

subsection \<open>\<^verbatim>\<open>_calculate_composite_weight\<close>\<close>

definition calculate_composite_weight :: "attributes \<Rightarrow> real" where
  "calculate_composite_weight a =
     (let t = time a;
          c = cost a;
          r = it_risk a;
          IT_composite = v_net * network r + v_gps * gps r + v_data * data r
      in w_T * t + w_R * IT_composite + w_C * c)"

subsection \<open>The priority queue\<close>

text \<open>
  \<^verbatim>\<open>heapq\<close> keeps a list of \<^verbatim>\<open>(distance, node)\<close> tuples; \<^verbatim>\<open>heappush\<close> adds an item and
  \<^verbatim>\<open>heappop\<close> removes and returns the smallest one, tuples being compared
  lexicographically (the distance first, the node identifier second). Two items that
  compare equal are the same pair, so the content of the heap between two calls is the
  multiset of its items, kept here as a list. \<^verbatim>\<open>heappop\<close> of an empty heap raises
  \<^verbatim>\<open>IndexError\<close>.
\<close>

type_synonym heap = "(real \<times> node) list"

definition heappush :: "heap \<Rightarrow> real \<times> node \<Rightarrow> heap" where
  "heappush h x = x # h"

fun heappop :: "heap \<Rightarrow> exn + ((real \<times> node) \<times> heap)" where
  "heappop [] = Inl IndexError"
| "heappop (x # xs) = (let m = fold min xs x in Inr (m, remove1 m (x # xs)))"

subsection \<open>The search of \<^verbatim>\<open>find_optimal_dispatch\<close>\<close>

text \<open>
  The dictionaries \<^verbatim>\<open>\<lambda>\<close> and \<^verbatim>\<open>pred\<close> are only read and written by key, so they are maps;
  \<^verbatim>\<open>found_hospitals\<close> is iterated, so it keeps its insertion order. A value of \<^verbatim>\<open>pred\<close>
  is a node or \<^verbatim>\<open>None\<close>.
\<close>

record state =
  lam :: "node \<rightharpoonup> dist"
  pred :: "node \<rightharpoonup> node option"
  queue :: heap
  visited :: "node set"
  found_hospitals :: "(node \<times> dist) list"

text \<open>\<^verbatim>\<open>pred.get(current)\<close>: \<^verbatim>\<open>None\<close> for a missing key as for a stored \<^verbatim>\<open>None\<close>.\<close>

definition pred_get :: "(node \<rightharpoonup> node option) \<Rightarrow> node \<Rightarrow> node option" where
  "pred_get p n = (case p n of None \<Rightarrow> None | Some v \<Rightarrow> v)"

text \<open>Step 1, the initialisation.\<close>

definition init_state :: "node set \<Rightarrow> node \<Rightarrow> state" where
  "init_state vertices destination =
     \<lparr>lam = (\<lambda>n. if n \<in> vertices then Some PInf else None)(destination \<mapsto> Fin 0),
      pred = (\<lambda>n. if n \<in> vertices then Some None else None),
      queue = heappush [] (0, destination),
      visited = {},
      found_hospitals = []\<rparr>"

text \<open>
  The body of the \<^verbatim>\<open>for neighbor, attributes in ....items()\<close> loop, for the visited node
  \<open>k\<close> popped with the distance \<open>lam_k\<close>; the subscript \<^verbatim>\<open>\<lambda>[neighbor]\<close> raises on a missing
  key.
\<close>

definition relax_edge :: "node \<Rightarrow> real \<Rightarrow> node \<Rightarrow> attributes \<Rightarrow> state \<Rightarrow> exn + state" where
  "relax_edge k lam_k neighbor a st =
     (if neighbor \<in> visited st then Inr st
      else
        let w = calculate_composite_weight a;
            new_lam = lam_k + w
        in case lam st neighbor of
             None \<Rightarrow> Inl (KeyError neighbor)
           | Some cur \<Rightarrow>
               if dist_less (Fin new_lam) cur
               then Inr (st\<lparr>lam := (lam st)(neighbor \<mapsto> Fin new_lam),
                           pred := (pred st)(neighbor \<mapsto> Some k),
                           queue := heappush (queue st) (new_lam, neighbor)\<rparr>)
               else Inr st)"

fun relax :: "node \<Rightarrow> real \<Rightarrow> adjacency \<Rightarrow> state \<Rightarrow> exn + state" where
  "relax k lam_k [] st = Inr st"
| "relax k lam_k ((neighbor, a) # rest) st =
     (case relax_edge k lam_k neighbor a st of
        Inl e \<Rightarrow> Inl e
      | Inr st' \<Rightarrow> relax k lam_k rest st')"

text \<open>\<^verbatim>\<open>self.G_prime.get(k, {}).items()\<close>.\<close>

definition get_neighbors :: "graph \<Rightarrow> node \<Rightarrow> adjacency" where
  "get_neighbors gp k = (case map_of gp k of None \<Rightarrow> [] | Some nb \<Rightarrow> nb)"

text \<open>
  The state after \<^verbatim>\<open>visited.add(k)\<close> and the update of \<^verbatim>\<open>found_hospitals\<close>, for the entry
  \<open>(lam_k, k)\<close> just popped, \<open>q'\<close> being the rest of the queue and \<open>cur\<close> the value of
  \<^verbatim>\<open>\<lambda>[k]\<close>.
\<close>

definition mark_visited :: "node list \<Rightarrow> node \<Rightarrow> dist \<Rightarrow> heap \<Rightarrow> state \<Rightarrow> state" where
  "mark_visited hospitals k cur q' st =
     (let st1 = st\<lparr>queue := q', visited := insert k (visited st)\<rparr>
      in if k \<in> set hospitals \<and> k \<notin> fst ` set (found_hospitals st1)
         then st1\<lparr>found_hospitals := AList.update k cur (found_hospitals st1)\<rparr>
         else st1)"

text \<open>One iteration of the \<^verbatim>\<open>while Q\<close> loop (its body; the queue is not empty).\<close>

definition dijkstra_step :: "graph \<Rightarrow> node list \<Rightarrow> state \<Rightarrow> exn + state" where
  "dijkstra_step gp hospitals st =
     (case heappop (queue st) of
        Inl e \<Rightarrow> Inl e
      | Inr ((lam_k, k), q') \<Rightarrow>
          (case lam st k of
             None \<Rightarrow> Inl (KeyError k)
           | Some cur \<Rightarrow>
               if dist_less cur (Fin lam_k) \<or> k \<in> visited st
               then Inr (st\<lparr>queue := q'\<rparr>)
               else relax k lam_k (get_neighbors gp k)
                      (mark_visited hospitals k cur q' st)))"

text \<open>The nodes that can ever enter the queue: the neighbours listed in the graph.\<close>

definition targets :: "graph \<Rightarrow> node set" where
  "targets gp = (\<Union>nb \<in> snd ` set gp. fst ` set nb)"

definition todo :: "graph \<Rightarrow> state \<Rightarrow> node set" where
  "todo gp st = (targets gp \<union> snd ` set (queue st)) - visited st"

text \<open>
  The \<^verbatim>\<open>while Q\<close> loop. It terminates: an iteration either marks a node of the queue as
  visited or only discards an entry, and entries are pushed only while a node is visited.
\<close>

lemma fold_min_Min: "fold min xs (x::'a::linorder) = Min (set (x # xs))"
  by (rule Min.set_eq_fold[symmetric])

lemma heappop_Inr:
  assumes "heappop q = Inr (m, q')"
  shows "m \<in> set q" and "q' = remove1 m q" and "\<forall>x \<in> set q. m \<le> x"
proof -
  obtain x xs where q: "q = x # xs" using assms by (cases q) auto
  with assms have m: "m = Min (set (x # xs))" and q': "q' = remove1 m (x # xs)"
    by (auto simp: Let_def fold_min_Min simp del: set_simps)
  show "m \<in> set q" unfolding m q by (rule Min_in) auto
  show "q' = remove1 m q" using q' q by simp
  show "\<forall>x \<in> set q. m \<le> x" unfolding m q by (auto simp del: set_simps intro: Min_le)
qed

lemma heappop_nonempty: "q \<noteq> [] \<Longrightarrow> \<exists>m q'. heappop q = Inr (m, q')"
  by (cases q) (auto simp: Let_def)

lemma relax_edge_visited: "relax_edge k x n a st = Inr st' \<Longrightarrow> visited st' = visited st"
  by (auto simp: relax_edge_def Let_def split: if_splits option.splits)

lemma relax_edge_queue:
  "relax_edge k x n a st = Inr st' \<Longrightarrow> set (queue st') \<subseteq> insert (x + calculate_composite_weight a, n) (set (queue st))"
  by (auto simp: relax_edge_def Let_def heappush_def split: if_splits option.splits)

lemma relax_visited: "relax k x es st = Inr st' \<Longrightarrow> visited st' = visited st"
proof (induction es arbitrary: st)
  case Nil
  then show ?case by simp
next
  case (Cons e es)
  obtain n a where e: "e = (n, a)" by (cases e)
  from Cons.prems obtain st1 where r1: "relax_edge k x n a st = Inr st1"
    and r: "relax k x es st1 = Inr st'"
    unfolding e by (auto split: sum.splits)
  from Cons.IH[OF r] relax_edge_visited[OF r1] show ?case by simp
qed

lemma relax_queue_nodes:
  "relax k x es st = Inr st' \<Longrightarrow> snd ` set (queue st') \<subseteq> snd ` set (queue st) \<union> fst ` set es"
proof (induction es arbitrary: st)
  case Nil
  then show ?case by simp
next
  case (Cons e es)
  obtain n a where e: "e = (n, a)" by (cases e)
  from Cons.prems obtain st1 where r1: "relax_edge k x n a st = Inr st1"
    and r: "relax k x es st1 = Inr st'"
    unfolding e by (auto split: sum.splits)
  from relax_edge_queue[OF r1]
  have "snd ` set (queue st1) \<subseteq> insert n (snd ` set (queue st))" by force
  with Cons.IH[OF r] show ?case unfolding e by auto
qed

lemma finite_targets: "finite (targets gp)"
  by (auto simp: targets_def)

lemma finite_todo: "finite (todo gp st)"
  by (simp add: todo_def finite_targets)

lemma map_of_targets: "map_of gp k = Some nb \<Longrightarrow> fst ` set nb \<subseteq> targets gp"
  by (force simp: targets_def dest: map_of_SomeD)

lemma dijkstra_step_decreases:
  assumes "dijkstra_step gp hs st = Inr st'"
  shows "todo gp st' \<subset> todo gp st \<or>
         (todo gp st' \<subseteq> todo gp st \<and> length (queue st') < length (queue st))"
proof -
  from assms obtain lk k q' cur where pop: "heappop (queue st) = Inr ((lk, k), q')"
    and cur: "lam st k = Some cur"
    by (auto simp: dijkstra_step_def split: sum.splits option.splits prod.splits)
  note hp = heappop_Inr[OF pop]
  show ?thesis
  proof (cases "dist_less cur (Fin lk) \<or> k \<in> visited st")
    case True
    with assms pop cur have st': "st' = st\<lparr>queue := q'\<rparr>"
      by (auto simp: dijkstra_step_def)
    have "set q' \<subseteq> set (queue st)" using hp(2) set_remove1_subset by fast
    moreover have "length q' < length (queue st)"
      using hp(1,2) length_pos_if_in_set[OF hp(1)] by (simp add: length_remove1)
    ultimately show ?thesis unfolding st' by (auto simp: todo_def)
  next
    case False
    define nb where "nb = get_neighbors gp k"
    define st2 where "st2 = mark_visited hs k cur q' st"
    from False assms pop cur have rel: "relax k lk nb st2 = Inr st'"
      by (auto simp: dijkstra_step_def nb_def st2_def)
    have v2: "visited st2 = insert k (visited st)" and q2: "queue st2 = q'"
      by (auto simp: st2_def mark_visited_def Let_def)
    have nbt: "fst ` set nb \<subseteq> targets gp"
    proof (cases "map_of gp k")
      case None
      then show ?thesis by (simp add: nb_def get_neighbors_def)
    next
      case (Some a)
      then show ?thesis using map_of_targets[OF Some] by (simp add: nb_def get_neighbors_def)
    qed
    have "set q' \<subseteq> set (queue st)" using hp(2) set_remove1_subset by fast
    then have "snd ` set (queue st2) \<subseteq> snd ` set (queue st)"
      unfolding q2 by (rule image_mono)
    with relax_queue_nodes[OF rel] nbt
    have "snd ` set (queue st') \<subseteq> snd ` set (queue st) \<union> targets gp" by blast
    moreover have "visited st' = insert k (visited st)"
      using relax_visited[OF rel] v2 by simp
    moreover have "k \<in> snd ` set (queue st)" using hp(1) by force
    moreover have "k \<notin> visited st" using False by simp
    ultimately have "todo gp st' \<subset> todo gp st" by (auto simp: todo_def)
    then show ?thesis ..
  qed
qed

function dijkstra_loop :: "graph \<Rightarrow> node list \<Rightarrow> state \<Rightarrow> exn + state" where
  "dijkstra_loop gp hospitals st =
     (if queue st = [] then Inr st
      else case dijkstra_step gp hospitals st of
             Inl e \<Rightarrow> Inl e
           | Inr st' \<Rightarrow> dijkstra_loop gp hospitals st')"
  by pat_completeness auto
termination
proof (relation "measures [\<lambda>(gp, hs, st). card (todo gp st), \<lambda>(gp, hs, st). length (queue st)]", goal_cases)
  case 1
  show ?case by simp
next
  case (2 gp hospitals st st')
  from dijkstra_step_decreases[OF 2(2)] show ?case
  proof
    assume "todo gp st' \<subset> todo gp st"
    then have "card (todo gp st') < card (todo gp st)"
      by (rule psubset_card_mono[OF finite_todo])
    then show ?thesis by simp
  next
    assume a: "todo gp st' \<subseteq> todo gp st \<and> length (queue st') < length (queue st)"
    then have "card (todo gp st') \<le> card (todo gp st)"
      by (auto intro: card_mono finite_todo)
    with a show ?thesis by auto
  qed
qed

declare dijkstra_loop.simps [simp del]

subsection \<open>Path reconstruction\<close>

text \<open>
  \<^verbatim>\<open>while current is not None: path.append(current); current = pred.get(current)\<close>,
  written three times in the source (in \<^verbatim>\<open>_reconstruct_original_path\<close> and twice in
  \<^verbatim>\<open>find_optimal_dispatch\<close>). The loop runs forever on a cyclic \<^verbatim>\<open>pred\<close>, so its result is
  an option: \<open>None\<close> when it does not return.
\<close>

partial_function (option) follow_pred ::
  "(node \<rightharpoonup> node option) \<Rightarrow> node option \<Rightarrow> node list \<Rightarrow> node list option" where
  "follow_pred p current path =
     (case current of
        None \<Rightarrow> Some path
      | Some c \<Rightarrow> follow_pred p (pred_get p c) (path @ [c]))"

declare follow_pred.simps [code]

definition reconstruct_original_path ::
  "node \<Rightarrow> (node \<rightharpoonup> node option) \<Rightarrow> node list option" where
  "reconstruct_original_path hospital p = follow_pred p (Some hospital) []"

subsection \<open>\<^verbatim>\<open>_calculate_route_metrics\<close>\<close>

record metrics =
  travel_time :: real
  total_cost :: real
  it_components :: risk

text \<open>\<^verbatim>\<open>d[k]\<close> and \<^verbatim>\<open>k in d\<close> on a dictionary.\<close>

definition subscript :: "(node \<times> 'v) list \<Rightarrow> node \<Rightarrow> exn + 'v" where
  "subscript d k = (case map_of d k of None \<Rightarrow> Inl (KeyError k) | Some v \<Rightarrow> Inr v)"

definition has_key :: "(node \<times> 'v) list \<Rightarrow> node \<Rightarrow> bool" where
  "has_key d k \<longleftrightarrow> k \<in> fst ` set d"

text \<open>The body of the loop for the segment \<open>(u, v) = (route[i], route[i + 1])\<close>.\<close>

definition add_edge_data :: "attributes \<Rightarrow> metrics \<Rightarrow> metrics" where
  "add_edge_data edge_data m =
     \<lparr>travel_time = travel_time m + time edge_data,
      total_cost = total_cost m + cost edge_data,
      it_components =
        \<lparr>network = network (it_components m) + w_R * v_net * network (it_risk edge_data),
         gps = gps (it_components m) + w_R * v_gps * gps (it_risk edge_data),
         data = data (it_components m) + w_R * v_data * data (it_risk edge_data)\<rparr>\<rparr>"

definition add_segment :: "graph \<Rightarrow> node \<Rightarrow> node \<Rightarrow> metrics \<Rightarrow> exn + metrics" where
  "add_segment g u v m =
     (if has_key g u
      then (case subscript g u of
              Inl e \<Rightarrow> Inl e
            | Inr nb \<Rightarrow>
                if has_key nb v
                then (case subscript nb v of
                        Inl e \<Rightarrow> Inl e
                      | Inr edge_data \<Rightarrow> Inr (add_edge_data edge_data m))
                else Inr m)
      else Inr m)"

fun metrics_loop :: "graph \<Rightarrow> node list \<Rightarrow> metrics \<Rightarrow> exn + metrics" where
  "metrics_loop g (u # v # rest) m =
     (case add_segment g u v m of
        Inl e \<Rightarrow> Inl e
      | Inr m' \<Rightarrow> metrics_loop g (v # rest) m')"
| "metrics_loop g route m = Inr m"

definition zero_metrics :: metrics where
  "zero_metrics = \<lparr>travel_time = 0, total_cost = 0,
                    it_components = \<lparr>network = 0, gps = 0, data = 0\<rparr>\<rparr>"

definition calculate_route_metrics :: "dispatcher \<Rightarrow> node list \<Rightarrow> exn + metrics" where
  "calculate_route_metrics self route = metrics_loop (self_G self) route zero_metrics"

subsection \<open>\<^verbatim>\<open>find_optimal_dispatch\<close>\<close>

record details = metrics +
  lam_h :: dist
  route :: "node list"

record dispatch =
  optimal_hospital :: node
  optimal_cost :: dist
  optimal_route :: "node list"
  all_hospitals :: "(node \<times> details) list"
  pred_dict :: "node \<rightharpoonup> node option"
  lambda_dict :: "node \<rightharpoonup> dist"

text \<open>
  The function returns the dictionary \<^verbatim>\<open>{'error': ...}\<close> or the dictionary of the solution.
\<close>

datatype result = Error string | Found dispatch

text \<open>
  \<^verbatim>\<open>min(found_hospitals.keys(), key=lambda h: found_hospitals[h])\<close>: the first key, in
  insertion order, whose value is not greater than any other (the running minimum is
  replaced only by a strictly smaller value); \<^verbatim>\<open>min\<close> of an empty sequence raises
  \<^verbatim>\<open>ValueError\<close>.
\<close>

definition min_step :: "node \<times> dist \<Rightarrow> node \<times> dist \<Rightarrow> node \<times> dist" where
  "min_step x best = (if dist_less (snd x) (snd best) then x else best)"

fun min_by_value :: "(node \<times> dist) list \<Rightarrow> exn + node" where
  "min_by_value [] = Inl ValueError"
| "min_by_value (p # ps) = Inr (fst (fold min_step ps p))"

text \<open>Step 5, the loop \<^verbatim>\<open>for hospital in found_hospitals\<close>.\<close>

fun hospital_details_loop ::
  "dispatcher \<Rightarrow> (node \<rightharpoonup> node option) \<Rightarrow> (node \<times> dist) list \<Rightarrow>
   (node \<times> details) list \<Rightarrow> (exn + (node \<times> details) list) option" where
  "hospital_details_loop self p [] hospital_details = Some (Inr hospital_details)"
| "hospital_details_loop self p ((hospital, lam_hospital) # rest) hospital_details =
     (case follow_pred p (Some hospital) [] of
        None \<Rightarrow> None
      | Some path_G_prime \<Rightarrow>
          (let route = rev path_G_prime
           in (case calculate_route_metrics self route of
                 Inl e \<Rightarrow> Some (Inl e)
               | Inr m \<Rightarrow>
                   hospital_details_loop self p rest
                     (AList.update hospital
                        \<lparr>travel_time = travel_time m, total_cost = total_cost m,
                         it_components = it_components m,
                         lam_h = lam_hospital, route = route\<rparr>
                        hospital_details))))"

definition find_optimal_dispatch ::
  "dispatcher \<Rightarrow> node \<Rightarrow> node list \<Rightarrow> (exn + result) option" where
  "find_optimal_dispatch self destination hospitals =
     (case dijkstra_loop (self_G_prime self) hospitals
             (init_state (self_V self) destination) of
        Inl e \<Rightarrow> Some (Inl e)
      | Inr st \<Rightarrow>
          if found_hospitals st = [] then Some (Inr (Error ''No reachable hospitals found''))
          else
            (case min_by_value (found_hospitals st) of
               Inl e \<Rightarrow> Some (Inl e)
             | Inr h_star \<Rightarrow>
                 (case subscript (found_hospitals st) h_star of
                    Inl e \<Rightarrow> Some (Inl e)
                  | Inr C_star \<Rightarrow>
                      (case follow_pred (pred st) (Some h_star) [] of
                         None \<Rightarrow> None
                       | Some path_in_G_prime \<Rightarrow>
                           (let optimal_route = rev path_in_G_prime
                            in (case calculate_route_metrics self optimal_route of
                                  Inl e \<Rightarrow> Some (Inl e)
                                | Inr optimal_metrics \<Rightarrow>
                                    (case hospital_details_loop self (pred st)
                                            (found_hospitals st) [] of
                                       None \<Rightarrow> None
                                     | Some (Inl e) \<Rightarrow> Some (Inl e)
                                     | Some (Inr hospital_details) \<Rightarrow>
                                         Some (Inr (Found
                                           \<lparr>optimal_hospital = h_star,
                                            optimal_cost = C_star,
                                            optimal_route = optimal_route,
                                            all_hospitals = hospital_details,
                                            pred_dict = pred st,
                                            lambda_dict = lam st\<rparr>)))))))))"

text \<open>
  A whole run: the constructor, with the iteration order \<open>vs\<close> of its vertex set, then the
  query.
\<close>

definition dispatch_query ::
  "node list \<Rightarrow> graph \<Rightarrow> node \<Rightarrow> node list \<Rightarrow> (exn + result) option" where
  "dispatch_query vs g destination hospitals =
     (case init vs g of
        Inl e \<Rightarrow> Some (Inl e)
      | Inr self \<Rightarrow> find_optimal_dispatch self destination hospitals)"

subsection \<open>Edges of a graph\<close>

text \<open>
  The edges listed in a graph, and the payload that the lookup \<^verbatim>\<open>g[u][v]\<close> finds; on a
  well-formed graph they are the same.
\<close>

definition edges :: "graph \<Rightarrow> (node \<times> node \<times> attributes) set" where
  "edges g = {(u, v, a). \<exists>nb. (u, nb) \<in> set g \<and> (v, a) \<in> set nb}"

definition lookup_edge :: "graph \<Rightarrow> node \<Rightarrow> node \<Rightarrow> attributes option" where
  "lookup_edge g u v = (case map_of g u of None \<Rightarrow> None | Some nb \<Rightarrow> map_of nb v)"

subsection \<open>Sample inputs\<close>

text \<open>The network of \<^verbatim>\<open>create_network\<close> and the query of \<^verbatim>\<open>main\<close>.\<close>

definition edge_data :: "real \<Rightarrow> real \<Rightarrow> real \<Rightarrow> real \<Rightarrow> real \<Rightarrow> attributes" where
  "edge_data t c n g d = \<lparr>time = t, cost = c, it_risk = \<lparr>network = n, gps = g, data = d\<rparr>\<rparr>"

definition create_network :: graph where
  "create_network =
    [(''Mongi_Slim'', [(''Ain_Zaghouan'', edge_data 3 0.76 0.4 0.5 0.3),
                       (''Jardin_Carthage'', edge_data 5 1.77 0.3 0.4 0.2)]),
     (''Charles_Nicolle'', [(''Bab_Sadoun'', edge_data 2 0.88 0.5 0.6 0.4),
                            (''Beb_Bhar'', edge_data 9 1.89 0.4 0.5 0.3)]),
     (''Habib_Thamer'', [(''Avenue_Moncef_Bey'', edge_data 5 1.07 0.3 0.4 0.2)]),
     (''Rabta'', [(''Bab_Sadoun'', edge_data 5 0.88 0.4 0.5 0.4)]),
     (''Ain_Zaghouan'', [(''Tunisia_Mall'', edge_data 6 1.83 0.6 0.7 0.5)]),
     (''Jardin_Carthage'', [(''Tunisia_Mall'', edge_data 9 1.96 0.2 0.3 0.1)]),
     (''Avenue_Moncef_Bey'', [(''Tunisia_Mall'', edge_data 19 7.575 0.3 0.4 0.2)]),
     (''Bab_Sadoun'', [(''Tunisia_Mall'', edge_data 22 8.21 0.5 0.6 0.4)]),
     (''Beb_Bhar'', [(''Tunisia_Mall'', edge_data 22 8.21 0.4 0.5 0.3)]),
     (''Tunisia_Mall'', [])]"

definition main_hospitals :: "node list" where
  "main_hospitals = [''Mongi_Slim'', ''Charles_Nicolle'', ''Habib_Thamer'', ''Rabta'']"

definition emergency_site :: node where
  "emergency_site = ''Tunisia_Mall''"

text \<open>One iteration order of the vertex set of the network.\<close>

definition main_order :: "node list" where
  "main_order =
     [''Mongi_Slim'', ''Charles_Nicolle'', ''Habib_Thamer'', ''Rabta'', ''Ain_Zaghouan'',
      ''Jardin_Carthage'', ''Avenue_Moncef_Bey'', ''Bab_Sadoun'', ''Beb_Bhar'', ''Tunisia_Mall'']"

text \<open>A small network: two hospitals \<open>A\<close> and \<open>C\<close>, one road each to the site \<open>B\<close>.\<close>

definition small_network :: graph where
  "small_network =
     [(''A'', [(''B'', edge_data 3 0.76 0.4 0.5 0.3)]),
      (''C'', [(''B'', edge_data 6 1.83 0.6 0.7 0.5)])]"

definition small_order :: "node list" where
  "small_order = [''B'', ''C'', ''A'']"

subsection \<open>The cross-check of the metrics\<close>

text \<open>
  The composite cost recomputed from the metrics of a route:
  \<open>w_T * travel_time + (sum of the three risk components) + w_C * total_cost\<close>.
\<close>

definition recomposed :: "('a metrics_scheme) \<Rightarrow> real" where
  "recomposed m =
     w_T * travel_time m
     + (network (it_components m) + gps (it_components m) + data (it_components m))
     + w_C * total_cost m"

subsection \<open>Walks of the searched graph and the invariant of the search\<close>

text \<open>
  A walk from \<open>u\<close> is the list of its steps, each the neighbour entered and the payload of
  the edge taken, as the search reads them from \<^verbatim>\<open>G_prime.get(k, {}).items()\<close>; its cost is
  the sum of the composite weights of its edges.
\<close>

abbreviation (input) cw :: "attributes \<Rightarrow> real" where
  "cw \<equiv> calculate_composite_weight"

fun walk :: "graph \<Rightarrow> node \<Rightarrow> (node \<times> attributes) list \<Rightarrow> node \<Rightarrow> bool" where
  "walk gp u [] v \<longleftrightarrow> u = v"
| "walk gp u ((n, a) # es) v \<longleftrightarrow> (n, a) \<in> set (get_neighbors gp u) \<and> walk gp n es v"

definition walk_cost :: "(node \<times> attributes) list \<Rightarrow> real" where
  "walk_cost es = sum_list (map (\<lambda>(n, a). calculate_composite_weight a) es)"

definition reachable :: "graph \<Rightarrow> node \<Rightarrow> node \<Rightarrow> bool" where
  "reachable gp d v \<longleftrightarrow> (\<exists>es. walk gp d es v)"

text \<open>
  \<open>chain p n path\<close>: following \<^verbatim>\<open>pred.get\<close> from \<open>n\<close> visits the nodes of \<open>path\<close>, in this
  order, and then reaches \<^verbatim>\<open>None\<close>.
\<close>

inductive chain :: "(node \<rightharpoonup> node option) \<Rightarrow> node \<Rightarrow> node list \<Rightarrow> bool" for p where
  chain_end: "pred_get p n = None \<Longrightarrow> chain p n [n]"
| chain_step: "pred_get p n = Some u \<Longrightarrow> chain p u path \<Longrightarrow> chain p n (n # path)"

text \<open>
  The invariant of the \<^verbatim>\<open>while Q\<close> loop, for the vertex set \<open>V\<close>, the searched graph
  \<open>gp\<close>, the destination \<open>d\<close> and the hospitals \<open>hs\<close>.
\<close>

definition closed_graph :: "node set \<Rightarrow> graph \<Rightarrow> bool" where
  "closed_graph V gp \<longleftrightarrow> (\<forall>u n a. (n, a) \<in> set (get_neighbors gp u) \<longrightarrow> n \<in> V)"

definition inv_lam :: "node set \<Rightarrow> node \<Rightarrow> state \<Rightarrow> bool" where
  "inv_lam V d st \<longleftrightarrow>
     lam st d = Some (Fin 0) \<and>
     (\<forall>n. lam st n = None \<longleftrightarrow> n \<notin> insert d V) \<and>
     (\<forall>n \<in> V. pred st n \<noteq> None)"

definition inv_queue :: "state \<Rightarrow> bool" where
  "inv_queue st \<longleftrightarrow>
     (\<forall>x n. (x, n) \<in> set (queue st) \<longrightarrow> (\<exists>y. lam st n = Some (Fin y) \<and> y \<le> x)) \<and>
     (\<forall>n y. lam st n = Some (Fin y) \<longrightarrow> n \<in> visited st \<or> (y, n) \<in> set (queue st)) \<and>
     (\<forall>n \<in> visited st. \<exists>y. lam st n = Some (Fin y))"

definition inv_pred :: "graph \<Rightarrow> node \<Rightarrow> state \<Rightarrow> bool" where
  "inv_pred gp d st \<longleftrightarrow>
     (\<forall>n u. pred_get (pred st) n = Some u \<longrightarrow>
        u \<in> visited st \<and> n \<noteq> d \<and>
        (\<exists>a y. (n, a) \<in> set (get_neighbors gp u) \<and> lam st u = Some (Fin y) \<and>
               lam st n = Some (Fin (y + calculate_composite_weight a)))) \<and>
     (\<forall>n y. lam st n = Some (Fin y) \<and> n \<noteq> d \<longrightarrow> pred_get (pred st) n \<noteq> None) \<and>
     (\<forall>n \<in> visited st. \<exists>path. chain (pred st) n path \<and> set path \<subseteq> visited st)"

definition inv_found :: "node list \<Rightarrow> state \<Rightarrow> bool" where
  "inv_found hs st \<longleftrightarrow>
     distinct (map fst (found_hospitals st)) \<and>
     fst ` set (found_hospitals st) = visited st \<inter> set hs \<and>
     (\<forall>h v. (h, v) \<in> set (found_hospitals st) \<longrightarrow> lam st h = Some v)"

definition inv_start :: "node \<Rightarrow> node list \<Rightarrow> state \<Rightarrow> bool" where
  "inv_start d hs st \<longleftrightarrow>
     (visited st = {} \<and> found_hospitals st = [] \<and> queue st = [(0, d)]) \<or>
     (d \<in> visited st \<and> (d \<in> set hs \<longrightarrow> (\<exists>rest. found_hospitals st = (d, Fin 0) # rest)))"

definition inv_basic :: "node set \<Rightarrow> graph \<Rightarrow> node \<Rightarrow> node list \<Rightarrow> state \<Rightarrow> bool" where
  "inv_basic V gp d hs st \<longleftrightarrow>
     inv_lam V d st \<and> inv_queue st \<and> inv_pred gp d st \<and> inv_found hs st \<and> inv_start d hs st"

subsection \<open>The first minimum of a list\<close>

text \<open>\<open>first_min xs b\<close>: \<open>b\<close> is the first entry of \<open>xs\<close> whose value no other entry is below.\<close>

definition first_min :: "(node \<times> dist) list \<Rightarrow> node \<times> dist \<Rightarrow> bool" where
  "first_min xs b \<longleftrightarrow>
     (\<exists>i<length xs. xs ! i = b \<and>
        (\<forall>j<length xs. \<not> dist_less (snd (xs ! j)) (snd b)) \<and>
        (\<forall>j<i. dist_less (snd b) (snd (xs ! j))))"

subsection \<open>The order of the visits\<close>

text \<open>
  The node that one iteration of the loop marks as visited (none when the entry is
  discarded), and the nodes marked by the rest of the loop, in this order.
\<close>

definition step_visits :: "state \<Rightarrow> node list" where
  "step_visits st =
     (case heappop (queue st) of
        Inl e \<Rightarrow> []
      | Inr ((lam_k, k), q') \<Rightarrow>
          (case lam st k of
             None \<Rightarrow> []
           | Some cur \<Rightarrow> if dist_less cur (Fin lam_k) \<or> k \<in> visited st then [] else [k]))"

function visit_sequence :: "graph \<Rightarrow> node list \<Rightarrow> state \<Rightarrow> node list" where
  "visit_sequence gp hospitals st =
     (if queue st = [] then []
      else case dijkstra_step gp hospitals st of
             Inl e \<Rightarrow> step_visits st
           | Inr st' \<Rightarrow> step_visits st @ visit_sequence gp hospitals st')"
  by pat_completeness auto
termination
proof (relation "measures [\<lambda>(gp, hs, st). card (todo gp st), \<lambda>(gp, hs, st). length (queue st)]",
    goal_cases)
  case 1
  show ?case by simp
next
  case (2 gp hospitals st st')
  from dijkstra_step_decreases[OF 2(2)] show ?case
  proof
    assume "todo gp st' \<subset> todo gp st"
    then have "card (todo gp st') < card (todo gp st)"
      by (rule psubset_card_mono[OF finite_todo])
    then show ?thesis by simp
  next
    assume a: "todo gp st' \<subseteq> todo gp st \<and> length (queue st') < length (queue st)"
    then have "card (todo gp st') \<le> card (todo gp st)"
      by (auto intro: card_mono finite_todo)
    with a show ?thesis by auto
  qed
qed

declare visit_sequence.simps [simp del]

section \<open>Composite weight\<close>

text \<open>
  C9. For every edge payload the composite weight used by the relaxation is
  \<open>w_T * time + w_R * (v_net * risk.network + v_gps * risk.gps + v_data * risk.data) + w_C * cost\<close>
  with the coefficients 0.619, 0.284, 0.096 and 0.623, 0.239, 0.137.
\<close>

theorem composite_weight_formula:
  "calculate_composite_weight a =
     0.619 * time a
     + 0.284 * (0.623 * network (it_risk a) + 0.239 * gps (it_risk a) + 0.137 * data (it_risk a))
     + 0.096 * cost a"
  by (simp add: calculate_composite_weight_def Let_def
      w_T_def w_R_def w_C_def v_net_def v_gps_def v_data_def)

section \<open>Graph reversal\<close>

lemma edges_lookup:
  assumes "wf_graph g"
  shows "(u, v, a) \<in> edges g \<longleftrightarrow> lookup_edge g u v = Some a"
proof
  assume "(u, v, a) \<in> edges g"
  then obtain nb where nb: "(u, nb) \<in> set g" "(v, a) \<in> set nb" by (auto simp: edges_def)
  from assms nb(1) have "map_of g u = Some nb" and "distinct (map fst nb)"
    by (auto simp: wf_graph_def)
  with nb(2) show "lookup_edge g u v = Some a" by (simp add: lookup_edge_def)
next
  assume "lookup_edge g u v = Some a"
  then obtain nb where "map_of g u = Some nb" "map_of nb v = Some a"
    by (auto simp: lookup_edge_def split: option.splits)
  then show "(u, v, a) \<in> edges g" by (auto simp: edges_def dest: map_of_SomeD)
qed

lemma set_update_subset: "set (AList.update k v al) \<subseteq> insert (k, v) (set al)"
  by (induction al) auto

lemma wf_graph_update:
  assumes "wf_graph gp" "distinct (map fst inner)"
  shows "wf_graph (AList.update v inner gp)"
proof -
  have "snd ` set (AList.update v inner gp) \<subseteq> insert inner (snd ` set gp)"
    using set_update_subset[of v inner gp] by force
  moreover have "\<forall>nb \<in> insert inner (snd ` set gp). distinct (map fst nb)"
    using assms by (simp add: wf_graph_def)
  ultimately have "\<forall>nb \<in> snd ` set (AList.update v inner gp). distinct (map fst nb)"
    by blast
  with assms(1) show ?thesis
    by (simp add: wf_graph_def distinct_update)
qed

lemma lookup_edge_update:
  "lookup_edge (AList.update v inner gp) v' u' = (if v' = v then map_of inner u' else lookup_edge gp v' u')"
  by (simp add: lookup_edge_def update_conv')

lemma reverse_neighbors_correct:
  assumes "fst ` set nbs \<subseteq> fst ` set gp" "distinct (map fst nbs)" "wf_graph gp"
  shows "\<exists>gp'. reverse_neighbors u nbs gp = Inr gp' \<and> wf_graph gp' \<and> fst ` set gp' = fst ` set gp \<and>
           (\<forall>v' u'. lookup_edge gp' v' u' =
               (if u' = u \<and> map_of nbs v' \<noteq> None then map_of nbs v' else lookup_edge gp v' u'))"
  using assms
proof (induction nbs arbitrary: gp)
  case Nil
  then show ?case by simp
next
  case (Cons e nbs)
  obtain v a where e: "e = (v, a)" by (cases e)
  from Cons.prems(1) e have "v \<in> fst ` set gp" by simp
  then obtain inner where inner: "map_of gp v = Some inner"
    by (metis domD dom_map_of_conv_image_fst)
  define gp1 where "gp1 = AList.update v (AList.update u a inner) gp"
  from Cons.prems(3) inner have "distinct (map fst inner)"
    by (auto simp: wf_graph_def dest!: map_of_SomeD) 
  then have wf1: "wf_graph gp1"
    unfolding gp1_def by (intro wf_graph_update Cons.prems(3)) (simp add: distinct_update)
  have keys1: "fst ` set gp1 = fst ` set gp"
    using \<open>v \<in> fst ` set gp\<close> by (auto simp: gp1_def dom_update)
  from Cons.prems(1) keys1 e have sub: "fst ` set nbs \<subseteq> fst ` set gp1" by auto
  from Cons.prems(2) e have d: "distinct (map fst nbs)" and vn: "v \<notin> fst ` set nbs" by auto
  from Cons.IH[OF sub d wf1] obtain gp' where
    r: "reverse_neighbors u nbs gp1 = Inr gp'" and wf': "wf_graph gp'"
    and keys': "fst ` set gp' = fst ` set gp1"
    and look: "\<forall>v' u'. lookup_edge gp' v' u' =
               (if u' = u \<and> map_of nbs v' \<noteq> None then map_of nbs v' else lookup_edge gp1 v' u')"
    by blast
  have l1: "lookup_edge gp1 v' u' = (if v' = v \<and> u' = u then Some a else lookup_edge gp v' u')" for v' u'
    using inner by (auto simp: gp1_def lookup_edge_update update_conv' lookup_edge_def)
  have vnone: "map_of nbs v = None" using vn by (simp add: map_of_eq_None_iff)
  have "reverse_neighbors u (e # nbs) gp = Inr gp'"
    using r inner by (simp add: e gp1_def)
  moreover have "\<forall>v' u'. lookup_edge gp' v' u' =
               (if u' = u \<and> map_of (e # nbs) v' \<noteq> None then map_of (e # nbs) v' else lookup_edge gp v' u')"
    using look l1 vnone by (auto simp: e)
  ultimately show ?case using wf' keys' keys1 by auto
qed

lemma reverse_edges_correct:
  assumes "get_all_nodes g \<subseteq> fst ` set gp" "wf_graph g" "wf_graph gp"
  shows "\<exists>gp'. reverse_edges g gp = Inr gp' \<and> wf_graph gp' \<and> fst ` set gp' = fst ` set gp \<and>
           (\<forall>v u. lookup_edge gp' v u =
               (case lookup_edge g u v of Some a \<Rightarrow> Some a | None \<Rightarrow> lookup_edge gp v u))"
  using assms
proof (induction g arbitrary: gp)
  case Nil
  then show ?case by (simp add: lookup_edge_def)
next
  case (Cons e g)
  obtain u nbs where e: "e = (u, nbs)" by (cases e)
  from Cons.prems(1) have sub1: "fst ` set nbs \<subseteq> fst ` set gp" and subg: "get_all_nodes g \<subseteq> fst ` set gp"
    by (auto simp: e get_all_nodes_def collect_vertices_def)
  from Cons.prems(2) have dn: "distinct (map fst nbs)" and wfg: "wf_graph g" and ug: "u \<notin> fst ` set g"
    by (auto simp: e wf_graph_def)
  from reverse_neighbors_correct[OF sub1 dn Cons.prems(3), of u] obtain gp1 where
    r1: "reverse_neighbors u nbs gp = Inr gp1" and wf1: "wf_graph gp1"
    and keys1: "fst ` set gp1 = fst ` set gp"
    and look1: "\<forall>v' u'. lookup_edge gp1 v' u' =
               (if u' = u \<and> map_of nbs v' \<noteq> None then map_of nbs v' else lookup_edge gp v' u')"
    by blast
  from subg keys1 have subg1: "get_all_nodes g \<subseteq> fst ` set gp1" by simp
  from Cons.IH[OF subg1 wfg wf1] obtain gp' where
    r: "reverse_edges g gp1 = Inr gp'" and wf': "wf_graph gp'"
    and keys': "fst ` set gp' = fst ` set gp1"
    and look: "\<forall>v u. lookup_edge gp' v u =
               (case lookup_edge g u v of Some a \<Rightarrow> Some a | None \<Rightarrow> lookup_edge gp1 v u)"
    by blast
  have gu: "map_of g u = None" using ug by (simp add: map_of_eq_None_iff)
  have le: "lookup_edge (e # g) u' v' = (if u' = u then map_of nbs v' else lookup_edge g u' v')" for u' v'
    by (simp add: e lookup_edge_def)
  have lg: "lookup_edge g u v' = None" for v' using gu by (simp add: lookup_edge_def)
  have "reverse_edges (e # g) gp = Inr gp'" using r1 r by (simp add: e)
  moreover have "\<forall>v u. lookup_edge gp' v u =
               (case lookup_edge (e # g) u v of Some a \<Rightarrow> Some a | None \<Rightarrow> lookup_edge gp v u)"
    using look look1 le lg by (auto split: option.splits)
  ultimately show ?case using wf' keys' keys1 by auto
qed

lemma init_vertices_aux:
  "wf_graph gp \<Longrightarrow> wf_graph (fold (\<lambda>vertex gp. AList.update vertex [] gp) vs gp) \<and>
   fst ` set (fold (\<lambda>vertex gp. AList.update vertex [] gp) vs gp) = set vs \<union> fst ` set gp \<and>
   (\<forall>v \<in> set vs. map_of (fold (\<lambda>vertex gp. AList.update vertex [] gp) vs gp) v = Some [])
   \<and> (\<forall>v. v \<notin> set vs \<longrightarrow> map_of (fold (\<lambda>vertex gp. AList.update vertex [] gp) vs gp) v = map_of gp v)"
proof (induction vs arbitrary: gp)
  case Nil
  then show ?case by simp
next
  case (Cons x vs)
  have wf1: "wf_graph (AList.update x [] gp)" using Cons.prems by (intro wf_graph_update) auto
  from Cons.IH[OF wf1] show ?case
    by (auto simp: dom_update update_conv')
qed

lemma init_vertices_correct:
  "wf_graph (init_vertices vs)" "fst ` set (init_vertices vs) = set vs"
  "lookup_edge (init_vertices vs) v u = None"
proof -
  have wf0: "wf_graph []" by (simp add: wf_graph_def)
  note a = init_vertices_aux[OF wf0, of vs]
  show "wf_graph (init_vertices vs)" "fst ` set (init_vertices vs) = set vs"
    using a by (auto simp: init_vertices_def)
  show "lookup_edge (init_vertices vs) v u = None"
  proof (cases "v \<in> set vs")
    case True
    then show ?thesis using a by (auto simp: init_vertices_def lookup_edge_def)
  next
    case False
    then show ?thesis using a by (auto simp: init_vertices_def lookup_edge_def)
  qed
qed

lemma reverse_graph_correct:
  assumes "wf_graph g" "set vs = get_all_nodes g"
  shows "\<exists>gp. reverse_graph vs g = Inr gp \<and> wf_graph gp \<and> fst ` set gp = get_all_nodes g \<and>
           (\<forall>v u. lookup_edge gp v u = lookup_edge g u v)"
proof -
  have sub: "get_all_nodes g \<subseteq> fst ` set (init_vertices vs)"
    using assms(2) by (simp add: init_vertices_correct)
  from reverse_edges_correct[OF sub assms(1) init_vertices_correct(1)]
  obtain gp where r: "reverse_edges g (init_vertices vs) = Inr gp" and wf: "wf_graph gp"
    and keys: "fst ` set gp = fst ` set (init_vertices vs)"
    and look: "\<forall>v u. lookup_edge gp v u =
        (case lookup_edge g u v of Some a \<Rightarrow> Some a | None \<Rightarrow> lookup_edge (init_vertices vs) v u)"
    by blast
  have "lookup_edge gp v u = lookup_edge g u v" for v u
    using look by (cases "lookup_edge g u v") (simp_all add: init_vertices_correct(3))
  with r wf keys show ?thesis
    unfolding reverse_graph_def by (simp add: init_vertices_correct(2) assms(2))
qed

text \<open>
  C5. For every input graph, the reversed graph built by the constructor has, for every
  edge \<open>u \<rightarrow> v\<close> with payload \<open>a\<close> of the original graph, the edge \<open>v \<rightarrow> u\<close> with the
  same payload, and no other edge; it is again a dictionary of dictionaries (so each edge
  is there once), and its keys are the derived vertex set. The construction raises
  nothing.
\<close>

theorem reversal_correct:
  assumes "wf_graph g" and "set_order (get_all_nodes g) vs"
  shows "\<exists>gp. reverse_graph vs g = Inr gp \<and> wf_graph gp
           \<and> edges gp = (\<lambda>(u, v, a). (v, u, a)) ` edges g
           \<and> fst ` set gp = get_all_nodes g"
proof -
  from assms(2) have vs: "set vs = get_all_nodes g" by (simp add: set_order_def)
  from reverse_graph_correct[OF assms(1) vs] obtain gp where
    r: "reverse_graph vs g = Inr gp" and wf: "wf_graph gp" and keys: "fst ` set gp = get_all_nodes g"
    and look: "\<forall>v u. lookup_edge gp v u = lookup_edge g u v" by blast
  have "edges gp = (\<lambda>(u, v, a). (v, u, a)) ` edges g"
  proof (rule set_eqI)
    fix x :: "node \<times> node \<times> attributes"
    obtain v u a where x: "x = (v, u, a)" by (cases x)
    have "x \<in> edges gp \<longleftrightarrow> (u, v, a) \<in> edges g"
      unfolding x using look by (simp add: edges_lookup[OF wf] edges_lookup[OF assms(1)])
    also have "\<dots> \<longleftrightarrow> x \<in> (\<lambda>(u, v, a). (v, u, a)) ` edges g"
      unfolding x by force
    finally show "x \<in> edges gp \<longleftrightarrow> x \<in> (\<lambda>(u, v, a). (v, u, a)) ` edges g" .
  qed
  with r wf keys show ?thesis by blast
qed

lemma small_network_wf: "wf_graph small_network"
  by (simp add: wf_graph_def small_network_def)

lemma small_order_ok: "set_order (get_all_nodes small_network) small_order"
  by (auto simp: set_order_def get_all_nodes_def collect_vertices_def small_network_def
      small_order_def)

theorem reversal_correct_witness:
  "wf_graph small_network \<and> set_order (get_all_nodes small_network) small_order \<and>
   (\<exists>gp. reverse_graph small_order small_network = Inr gp \<and> wf_graph gp
       \<and> edges gp = (\<lambda>(u, v, a). (v, u, a)) ` edges small_network
       \<and> fst ` set gp = get_all_nodes small_network)"
  using reversal_correct [OF small_network_wf small_order_ok] small_network_wf small_order_ok
  by simp

section \<open>Metrics aggregation\<close>

lemma has_key_map_of: "has_key d k \<longleftrightarrow> map_of d k \<noteq> None"
  by (simp add: has_key_def map_of_eq_None_iff)

lemma add_segment_total: "\<exists>m'. add_segment g u v m = Inr m'"
  by (auto simp: add_segment_def subscript_def has_key_map_of split: option.splits)

lemma add_segment_missing: "lookup_edge g u v = None \<Longrightarrow> add_segment g u v m = Inr m"
  by (auto simp: add_segment_def subscript_def has_key_map_of lookup_edge_def
      split: option.splits)

lemma add_segment_present:
  "lookup_edge g u v = Some a \<Longrightarrow> add_segment g u v m = Inr (add_edge_data a m)"
  by (auto simp: add_segment_def subscript_def has_key_map_of lookup_edge_def
      split: option.splits)

lemma metrics_loop_total: "\<exists>m'. metrics_loop g rt m = Inr m'"
proof (induction g rt m rule: metrics_loop.induct)
  case (1 g u v rest m)
  obtain m1 where m1: "add_segment g u v m = Inr m1"
    using add_segment_total by blast
  with "1.IH"[OF m1] show ?case by simp
qed simp_all

text \<open>
  C8. A consecutive pair \<open>(u, v)\<close> of the route that is not an edge \<open>u \<rightarrow> v\<close> of the forward
  graph leaves every accumulated total as it is, the loop goes on with the next pair, and
  the aggregation returns metrics for every route: it raises nothing.
\<close>

theorem missing_edge_contributes_nothing:
  "(lookup_edge g u v = None \<longrightarrow>
      add_segment g u v m = Inr m \<and>
      metrics_loop g (u # v # rest) m = metrics_loop g (v # rest) m)
   \<and> (\<exists>m'. calculate_route_metrics self rt = Inr m')"
  by (simp add: add_segment_missing calculate_route_metrics_def metrics_loop_total)

theorem missing_edge_contributes_nothing_witness:
  "lookup_edge small_network ''B'' ''A'' = None \<and>
   add_segment small_network ''B'' ''A'' zero_metrics = Inr zero_metrics \<and>
   metrics_loop small_network [''B'', ''A''] zero_metrics = Inr zero_metrics"
  using missing_edge_contributes_nothing
    [of small_network "''B''" "''A''" zero_metrics "[]" undefined undefined]
  by (simp add: lookup_edge_def small_network_def)

section \<open>The query of \<^verbatim>\<open>main\<close>\<close>

lemmas run_defs =
  dispatch_query_def init_def reverse_graph_def init_vertices_def get_all_nodes_def
  collect_vertices_def find_optimal_dispatch_def init_state_def heappush_def
  dijkstra_step_def mark_visited_def get_neighbors_def relax_edge_def Let_def
  dijkstra_loop.simps follow_pred.simps pred_get_def
  subscript_def has_key_def calculate_route_metrics_def add_segment_def min_step_def
  zero_metrics_def calculate_composite_weight_def w_T_def w_R_def w_C_def v_net_def
  v_gps_def v_data_def add_edge_data_def edge_data_def

lemma main_run:
  "\<exists>r. dispatch_query main_order create_network emergency_site main_hospitals
         = Some (Inr (Found r))
     \<and> optimal_hospital r = ''Mongi_Slim''
     \<and> optimal_cost r = Fin (7636437 / 1250000)
     \<and> optimal_route r = [''Tunisia_Mall'', ''Ain_Zaghouan'', ''Mongi_Slim'']
     \<and> follow_pred (pred_dict r) (Some ''Mongi_Slim'') []
         = Some [''Mongi_Slim'', ''Ain_Zaghouan'', ''Tunisia_Mall'']
     \<and> all_hospitals r =
         [(''Mongi_Slim'',
           \<lparr>travel_time = 0, total_cost = 0,
            it_components = \<lparr>network = 0, gps = 0, data = 0\<rparr>,
            lam_h = Fin (7636437 / 1250000),
            route = [''Tunisia_Mall'', ''Ain_Zaghouan'', ''Mongi_Slim'']\<rparr>),
          (''Habib_Thamer'',
           \<lparr>travel_time = 0, total_cost = 0,
            it_components = \<lparr>network = 0, gps = 0, data = 0\<rparr>,
            lam_h = Fin (19827429 / 1250000),
            route = [''Tunisia_Mall'', ''Avenue_Moncef_Bey'', ''Habib_Thamer'']\<rparr>),
          (''Charles_Nicolle'',
           \<lparr>travel_time = 0, total_cost = 0,
            it_components = \<lparr>network = 0, gps = 0, data = 0\<rparr>,
            lam_h = Fin (20022687 / 1250000),
            route = [''Tunisia_Mall'', ''Bab_Sadoun'', ''Charles_Nicolle'']\<rparr>),
          (''Rabta'',
           \<lparr>travel_time = 0, total_cost = 0,
            it_components = \<lparr>network = 0, gps = 0, data = 0\<rparr>,
            lam_h = Fin (2789167 / 156250),
            route = [''Tunisia_Mall'', ''Bab_Sadoun'', ''Rabta'']\<rparr>)]"
  by (simp add: run_defs main_order_def create_network_def main_hospitals_def
      emergency_site_def)

text \<open>
  C1, on the query of \<^verbatim>\<open>main\<close>. The route returned for the selected hospital and the
  route of every entry of \<^verbatim>\<open>all_hospitals\<close> start at the destination and end at the
  hospital: the predecessor chain \<open>[hospital, ..., destination]\<close>, which
  \<^verbatim>\<open>_reconstruct_original_path\<close> returns as it is, is reversed before it is returned.
\<close>

theorem main_routes_start_at_destination:
  "\<exists>r. dispatch_query main_order create_network emergency_site main_hospitals
         = Some (Inr (Found r))
     \<and> optimal_hospital r = ''Mongi_Slim''
     \<and> optimal_route r = [''Tunisia_Mall'', ''Ain_Zaghouan'', ''Mongi_Slim'']
     \<and> hd (optimal_route r) = emergency_site
     \<and> last (optimal_route r) = optimal_hospital r
     \<and> reconstruct_original_path (optimal_hospital r) (pred_dict r)
         = Some [''Mongi_Slim'', ''Ain_Zaghouan'', ''Tunisia_Mall'']
     \<and> map (\<lambda>(h, d). (h, route d)) (all_hospitals r) =
         [(''Mongi_Slim'', [''Tunisia_Mall'', ''Ain_Zaghouan'', ''Mongi_Slim'']),
          (''Habib_Thamer'', [''Tunisia_Mall'', ''Avenue_Moncef_Bey'', ''Habib_Thamer'']),
          (''Charles_Nicolle'', [''Tunisia_Mall'', ''Bab_Sadoun'', ''Charles_Nicolle'']),
          (''Rabta'', [''Tunisia_Mall'', ''Bab_Sadoun'', ''Rabta''])]"
proof -
  from main_run obtain r where
    "dispatch_query main_order create_network emergency_site main_hospitals
       = Some (Inr (Found r))"
    "optimal_hospital r = ''Mongi_Slim''"
    "optimal_route r = [''Tunisia_Mall'', ''Ain_Zaghouan'', ''Mongi_Slim'']"
    "follow_pred (pred_dict r) (Some ''Mongi_Slim'') []
       = Some [''Mongi_Slim'', ''Ain_Zaghouan'', ''Tunisia_Mall'']"
    "map (\<lambda>(h, d). (h, route d)) (all_hospitals r) =
         [(''Mongi_Slim'', [''Tunisia_Mall'', ''Ain_Zaghouan'', ''Mongi_Slim'']),
          (''Habib_Thamer'', [''Tunisia_Mall'', ''Avenue_Moncef_Bey'', ''Habib_Thamer'']),
          (''Charles_Nicolle'', [''Tunisia_Mall'', ''Bab_Sadoun'', ''Charles_Nicolle'']),
          (''Rabta'', [''Tunisia_Mall'', ''Bab_Sadoun'', ''Rabta''])]"
    by force
  then show ?thesis
    by (intro exI[of _ r]) (simp add: emergency_site_def reconstruct_original_path_def)
qed

text \<open>
  C2, on the query of \<^verbatim>\<open>main\<close>. The metrics are computed on the reversed route, whose
  segments are not edges of the forward graph, so every total is 0 and the recomposed
  cost is 0, while the distance of the selected hospital is 7636437 / 1250000
  (6.1091496): the two differ by more than the tolerance.
\<close>

theorem main_metrics_do_not_reconcile:
  "\<exists>r d. dispatch_query main_order create_network emergency_site main_hospitals
         = Some (Inr (Found r))
     \<and> map_of (all_hospitals r) (optimal_hospital r) = Some d
     \<and> lam_h d = Fin (7636437 / 1250000)
     \<and> travel_time d = 0 \<and> total_cost d = 0
     \<and> recomposed d = 0
     \<and> \<not> \<bar>recomposed d - 7636437 / 1250000\<bar> \<le> 1 / 10 ^ 9 * \<bar>7636437 / 1250000\<bar>"
proof -
  from main_run obtain r where r:
    "dispatch_query main_order create_network emergency_site main_hospitals
       = Some (Inr (Found r))"
    "optimal_hospital r = ''Mongi_Slim''"
    "map_of (all_hospitals r) ''Mongi_Slim'' =
       Some \<lparr>travel_time = 0, total_cost = 0,
            it_components = \<lparr>network = 0, gps = 0, data = 0\<rparr>,
            lam_h = Fin (7636437 / 1250000),
            route = [''Tunisia_Mall'', ''Ain_Zaghouan'', ''Mongi_Slim'']\<rparr>"
    by force
  show ?thesis
    by (intro exI[of _ r]
          exI[of _ "\<lparr>travel_time = 0, total_cost = 0,
            it_components = \<lparr>network = 0, gps = 0, data = 0\<rparr>,
            lam_h = Fin (7636437 / 1250000),
            route = [''Tunisia_Mall'', ''Ain_Zaghouan'', ''Mongi_Slim'']\<rparr>"])
       (simp add: r recomposed_def)
qed

section \<open>The relaxation loop\<close>

lemma dist_less_Fin_iff: "dist_less (Fin y) c \<longleftrightarrow> c = PInf \<or> (\<exists>z. c = Fin z \<and> y < z)"
  by (cases c) auto

lemma relax_edge_cases:
  assumes "relax_edge k x n a S = Inr S'"
  shows "(S' = S \<and> (n \<in> visited S \<or> (\<exists>z. lam S n = Some (Fin z) \<and> z \<le> x + cw a)))
       \<or> (n \<notin> visited S \<and> (\<exists>c. lam S n = Some c \<and> dist_less (Fin (x + cw a)) c) \<and>
          S' = S\<lparr>lam := (lam S)(n \<mapsto> Fin (x + cw a)), pred := (pred S)(n \<mapsto> Some k),
                 queue := (x + cw a, n) # queue S\<rparr>)"
proof (cases "n \<in> visited S")
  case True
  with assms show ?thesis by (simp add: relax_edge_def)
next
  case False
  from assms False obtain c where c: "lam S n = Some c"
    by (auto simp: relax_edge_def Let_def split: option.splits)
  show ?thesis
  proof (cases "dist_less (Fin (x + cw a)) c")
    case True
    with assms False c show ?thesis
      by (simp add: relax_edge_def Let_def heappush_def)
  next
    case nl: False
    then obtain z where "c = Fin z" "z \<le> x + cw a"
      by (cases c) auto
    with assms False c nl show ?thesis
      by (simp add: relax_edge_def Let_def)
  qed
qed

lemma relax_edge_total:
  "n \<in> visited S \<or> lam S n \<noteq> None \<Longrightarrow> \<exists>S'. relax_edge k x n a S = Inr S'"
  by (auto simp: relax_edge_def Let_def split: option.splits)

lemma relax_ConsE:
  assumes "relax k x ((n, a) # es) S = Inr S'"
  obtains S1 where "relax_edge k x n a S = Inr S1" "relax k x es S1 = Inr S'"
  using assms by (auto split: sum.splits)

lemma relax_edge_mono:
  assumes "relax_edge k x n a S = Inr S'" "lam S m = Some (Fin y)"
  shows "\<exists>z\<le>y. lam S' m = Some (Fin z)"
  using relax_edge_cases[OF assms(1)] assms(2)
  by (auto simp: dist_less_Fin_iff)

lemma relax_edge_dom:
  assumes "relax_edge k x n a S = Inr S'"
  shows "lam S' m = None \<longleftrightarrow> lam S m = None"
  using relax_edge_cases[OF assms(1)] by (auto split: if_splits)

lemma relax_edge_visited_same:
  assumes "relax_edge k x n a S = Inr S'" "m \<in> visited S"
  shows "lam S' m = lam S m \<and> pred S' m = pred S m"
  using relax_edge_cases[OF assms(1)] assms(2) by auto

lemma relax_edge_queue_mono:
  assumes "relax_edge k x n a S = Inr S'"
  shows "set (queue S) \<subseteq> set (queue S')"
  using relax_edge_cases[OF assms(1)] by auto

lemma relax_edge_queue_new:
  assumes "relax_edge k x n a S = Inr S'" "(y, m) \<in> set (queue S')"
  shows "(y, m) \<in> set (queue S) \<or>
         (m = n \<and> n \<notin> visited S \<and> y = x + cw a \<and> lam S' n = Some (Fin y))"
  using relax_edge_cases[OF assms(1)] assms(2) by auto

lemma relax_edge_bound:
  assumes "relax_edge k x n a S = Inr S'"
  shows "n \<in> visited S \<or> (\<exists>z. lam S' n = Some (Fin z) \<and> z \<le> x + cw a)"
  using relax_edge_cases[OF assms(1)] by auto

lemma relax_edge_changed:
  assumes "relax_edge k x n a S = Inr S'" "lam S' m \<noteq> lam S m \<or> pred S' m \<noteq> pred S m"
  shows "m = n \<and> n \<notin> visited S \<and> pred S' n = Some (Some k) \<and>
         lam S' n = Some (Fin (x + cw a)) \<and> (x + cw a, n) \<in> set (queue S')"
  using relax_edge_cases[OF assms(1)] assms(2) by (auto split: if_splits)

lemma relax_edge_found:
  assumes "relax_edge k x n a S = Inr S'"
  shows "found_hospitals S' = found_hospitals S"
  using relax_edge_cases[OF assms(1)] by auto

subsection \<open>The whole loop over the neighbours\<close>

lemma relax_total:
  "\<forall>(n, a) \<in> set es. n \<in> visited S \<or> lam S n \<noteq> None \<Longrightarrow> \<exists>S'. relax k x es S = Inr S'"
proof (induction es arbitrary: S)
  case Nil
  then show ?case by simp
next
  case (Cons e es)
  obtain n a where e: "e = (n, a)" by (cases e)
  from Cons.prems e have "n \<in> visited S \<or> lam S n \<noteq> None" by simp
  from relax_edge_total[OF this] obtain S1 where S1: "relax_edge k x n a S = Inr S1" by blast
  have "\<forall>(n, a) \<in> set es. n \<in> visited S1 \<or> lam S1 n \<noteq> None"
    using Cons.prems relax_edge_visited[OF S1] relax_edge_dom[OF S1] by auto
  from Cons.IH[OF this] S1 show ?case by (simp add: e)
qed

lemma relax_found: "relax k x es S = Inr S' \<Longrightarrow> found_hospitals S' = found_hospitals S"
proof (induction es arbitrary: S)
  case Nil
  then show ?case by simp
next
  case (Cons e es)
  obtain n a where e: "e = (n, a)" by (cases e)
  from Cons.prems obtain S1 where S1: "relax_edge k x n a S = Inr S1" "relax k x es S1 = Inr S'"
    unfolding e by (rule relax_ConsE)
  from Cons.IH[OF S1(2)] relax_edge_found[OF S1(1)] show ?case by simp
qed

lemma relax_mono:
  "relax k x es S = Inr S' \<Longrightarrow> lam S m = Some (Fin y) \<Longrightarrow> \<exists>z\<le>y. lam S' m = Some (Fin z)"
proof (induction es arbitrary: S y)
  case Nil
  then show ?case by simp
next
  case (Cons e es)
  obtain n a where e: "e = (n, a)" by (cases e)
  from Cons.prems(1) obtain S1 where S1: "relax_edge k x n a S = Inr S1" "relax k x es S1 = Inr S'"
    unfolding e by (rule relax_ConsE)
  from relax_edge_mono[OF S1(1) Cons.prems(2)] obtain z where z: "z \<le> y" "lam S1 m = Some (Fin z)"
    by blast
  from Cons.IH[OF S1(2) z(2)] z(1) show ?case by force
qed

lemma relax_dom: "relax k x es S = Inr S' \<Longrightarrow> lam S' m = None \<longleftrightarrow> lam S m = None"
proof (induction es arbitrary: S)
  case Nil
  then show ?case by simp
next
  case (Cons e es)
  obtain n a where e: "e = (n, a)" by (cases e)
  from Cons.prems(1) obtain S1 where S1: "relax_edge k x n a S = Inr S1" "relax k x es S1 = Inr S'"
    unfolding e by (rule relax_ConsE)
  from Cons.IH[OF S1(2)] relax_edge_dom[OF S1(1)] show ?case by simp
qed

lemma relax_visited_same:
  "relax k x es S = Inr S' \<Longrightarrow> m \<in> visited S \<Longrightarrow> lam S' m = lam S m \<and> pred S' m = pred S m"
proof (induction es arbitrary: S)
  case Nil
  then show ?case by simp
next
  case (Cons e es)
  obtain n a where e: "e = (n, a)" by (cases e)
  from Cons.prems(1) obtain S1 where S1: "relax_edge k x n a S = Inr S1" "relax k x es S1 = Inr S'"
    unfolding e by (rule relax_ConsE)
  have "m \<in> visited S1" using Cons.prems(2) relax_edge_visited[OF S1(1)] by simp
  from Cons.IH[OF S1(2) this] relax_edge_visited_same[OF S1(1) Cons.prems(2)] show ?case by simp
qed

lemma relax_queue_mono: "relax k x es S = Inr S' \<Longrightarrow> set (queue S) \<subseteq> set (queue S')"
proof (induction es arbitrary: S)
  case Nil
  then show ?case by simp
next
  case (Cons e es)
  obtain n a where e: "e = (n, a)" by (cases e)
  from Cons.prems(1) obtain S1 where S1: "relax_edge k x n a S = Inr S1" "relax k x es S1 = Inr S'"
    unfolding e by (rule relax_ConsE)
  from Cons.IH[OF S1(2)] relax_edge_queue_mono[OF S1(1)] show ?case by blast
qed

lemma relax_queue_new:
  "relax k x es S = Inr S' \<Longrightarrow> (y, m) \<in> set (queue S') \<Longrightarrow>
   (y, m) \<in> set (queue S) \<or>
   (m \<notin> visited S \<and> (\<exists>a. (m, a) \<in> set es \<and> y = x + cw a) \<and> (\<exists>z\<le>y. lam S' m = Some (Fin z)))"
proof (induction es arbitrary: S)
  case Nil
  then show ?case by simp
next
  case (Cons e es)
  obtain n a where e: "e = (n, a)" by (cases e)
  from Cons.prems(1) obtain S1 where S1: "relax_edge k x n a S = Inr S1" "relax k x es S1 = Inr S'"
    unfolding e by (rule relax_ConsE)
  note vis = relax_edge_visited[OF S1(1)]
  from Cons.IH[OF S1(2) Cons.prems(2)]
  consider (old) "(y, m) \<in> set (queue S1)"
    | (new) "m \<notin> visited S1" "\<exists>a. (m, a) \<in> set es \<and> y = x + cw a"
        "\<exists>z\<le>y. lam S' m = Some (Fin z)"
    by blast
  then show ?case
  proof cases
    case old
    from relax_edge_queue_new[OF S1(1) old]
    show ?thesis
    proof
      assume "(y, m) \<in> set (queue S)"
      then show ?thesis by simp
    next
      assume h: "m = n \<and> n \<notin> visited S \<and> y = x + cw a \<and> lam S1 n = Some (Fin y)"
      then have "lam S1 m = Some (Fin y)" by simp
      from relax_mono[OF S1(2) this] h show ?thesis unfolding e by auto
    qed
  next
    case new
    then show ?thesis using vis unfolding e by auto
  qed
qed

lemma relax_bound:
  "relax k x es S = Inr S' \<Longrightarrow> (v, a) \<in> set es \<Longrightarrow>
   v \<in> visited S \<or> (\<exists>z. lam S' v = Some (Fin z) \<and> z \<le> x + cw a)"
proof (induction es arbitrary: S)
  case Nil
  then show ?case by simp
next
  case (Cons e es)
  obtain n b where e: "e = (n, b)" by (cases e)
  from Cons.prems(1) obtain S1 where S1: "relax_edge k x n b S = Inr S1" "relax k x es S1 = Inr S'"
    unfolding e by (rule relax_ConsE)
  note vis = relax_edge_visited[OF S1(1)]
  from Cons.prems(2) e consider (here) "v = n" "a = b" | (later) "(v, a) \<in> set es" by auto
  then show ?case
  proof cases
    case here
    from relax_edge_bound[OF S1(1)] show ?thesis
    proof
      assume "n \<in> visited S"
      then show ?thesis using here by simp
    next
      assume "\<exists>z. lam S1 n = Some (Fin z) \<and> z \<le> x + cw b"
      then obtain z where z: "lam S1 n = Some (Fin z)" "z \<le> x + cw b" by blast
      from relax_mono[OF S1(2) z(1)] z(2) here show ?thesis by force
    qed
  next
    case later
    from Cons.IH[OF S1(2) later] vis show ?thesis by simp
  qed
qed

lemma relax_changed:
  "relax k x es S = Inr S' \<Longrightarrow> lam S' m \<noteq> lam S m \<or> pred S' m \<noteq> pred S m \<Longrightarrow>
   m \<notin> visited S \<and> pred S' m = Some (Some k) \<and>
   (\<exists>a. (m, a) \<in> set es \<and> lam S' m = Some (Fin (x + cw a)) \<and> (x + cw a, m) \<in> set (queue S'))"
proof (induction es arbitrary: S)
  case Nil
  then show ?case by simp
next
  case (Cons e es)
  obtain n b where e: "e = (n, b)" by (cases e)
  from Cons.prems(1) obtain S1 where S1: "relax_edge k x n b S = Inr S1" "relax k x es S1 = Inr S'"
    unfolding e by (rule relax_ConsE)
  note vis = relax_edge_visited[OF S1(1)]
  show ?case
  proof (cases "lam S' m \<noteq> lam S1 m \<or> pred S' m \<noteq> pred S1 m")
    case True
    from Cons.IH[OF S1(2) True] vis show ?thesis unfolding e by auto
  next
    case False
    with Cons.prems(2) have ch: "lam S1 m \<noteq> lam S m \<or> pred S1 m \<noteq> pred S m" by auto
    from relax_edge_changed[OF S1(1) ch] have
      h: "m = n" "n \<notin> visited S" "pred S1 n = Some (Some k)" "lam S1 n = Some (Fin (x + cw b))"
        "(x + cw b, n) \<in> set (queue S1)" by auto
    from h(5) relax_queue_mono[OF S1(2)] have "(x + cw b, n) \<in> set (queue S')" by blast
    with h False show ?thesis unfolding e by auto
  qed
qed

section \<open>The invariant of the search\<close>

lemma inv_queueD1:
  "inv_queue st \<Longrightarrow> (x, n) \<in> set (queue st) \<Longrightarrow> \<exists>y. lam st n = Some (Fin y) \<and> y \<le> x"
  unfolding inv_queue_def by blast

lemma inv_queueD2:
  "inv_queue st \<Longrightarrow> lam st n = Some (Fin y) \<Longrightarrow> n \<in> visited st \<or> (y, n) \<in> set (queue st)"
  unfolding inv_queue_def by blast

lemma inv_queueD3:
  "inv_queue st \<Longrightarrow> n \<in> visited st \<Longrightarrow> \<exists>y. lam st n = Some (Fin y)"
  unfolding inv_queue_def by blast

lemma inv_lamD1: "inv_lam V d st \<Longrightarrow> lam st d = Some (Fin 0)"
  unfolding inv_lam_def by blast

lemma inv_lamD2: "inv_lam V d st \<Longrightarrow> lam st n = None \<longleftrightarrow> n \<notin> insert d V"
  unfolding inv_lam_def by blast

lemma inv_lamD3: "inv_lam V d st \<Longrightarrow> n \<in> V \<Longrightarrow> pred st n \<noteq> None"
  unfolding inv_lam_def by blast

lemma inv_predD1:
  "inv_pred gp d st \<Longrightarrow> pred_get (pred st) n = Some u \<Longrightarrow>
   u \<in> visited st \<and> n \<noteq> d \<and>
   (\<exists>a y. (n, a) \<in> set (get_neighbors gp u) \<and> lam st u = Some (Fin y) \<and>
          lam st n = Some (Fin (y + calculate_composite_weight a)))"
  unfolding inv_pred_def by blast

lemma inv_predD2:
  "inv_pred gp d st \<Longrightarrow> lam st n = Some (Fin y) \<Longrightarrow> n \<noteq> d \<Longrightarrow> pred_get (pred st) n \<noteq> None"
  unfolding inv_pred_def by blast

lemma inv_predD3:
  "inv_pred gp d st \<Longrightarrow> n \<in> visited st \<Longrightarrow>
   \<exists>path. chain (pred st) n path \<and> set path \<subseteq> visited st"
  unfolding inv_pred_def by blast

lemma inv_foundD1: "inv_found hs st \<Longrightarrow> distinct (map fst (found_hospitals st))"
  unfolding inv_found_def by blast

lemma inv_foundD2: "inv_found hs st \<Longrightarrow> fst ` set (found_hospitals st) = visited st \<inter> set hs"
  unfolding inv_found_def by blast

lemma inv_foundD3: "inv_found hs st \<Longrightarrow> (h, v) \<in> set (found_hospitals st) \<Longrightarrow> lam st h = Some v"
  unfolding inv_found_def by blast

lemma closed_graphD: "closed_graph V gp \<Longrightarrow> (n, a) \<in> set (get_neighbors gp u) \<Longrightarrow> n \<in> V"
  unfolding closed_graph_def by blast

lemma in_remove1: "x \<in> set xs \<Longrightarrow> x \<noteq> a \<Longrightarrow> x \<in> set (remove1 a xs)"
  by (induction xs) auto

lemma update_absent: "k \<notin> fst ` set al \<Longrightarrow> AList.update k v al = al @ [(k, v)]"
  by (induction al) auto

lemma mark_visited_simps:
  "lam (mark_visited hs k c q st) = lam st"
  "pred (mark_visited hs k c q st) = pred st"
  "visited (mark_visited hs k c q st) = insert k (visited st)"
  "queue (mark_visited hs k c q st) = q"
  "found_hospitals (mark_visited hs k c q st) =
     (if k \<in> set hs \<and> k \<notin> fst ` set (found_hospitals st)
      then found_hospitals st @ [(k, c)] else found_hospitals st)"
  by (auto simp: mark_visited_def Let_def update_absent)

text \<open>The two ways an iteration can go.\<close>

lemma dijkstra_step_cases:
  assumes q: "queue st \<noteq> []" and il: "inv_lam V d st" and iq: "inv_queue st"
    and cl: "closed_graph V gp"
  obtains
    (skip) lk k where "(lk, k) \<in> set (queue st)" "\<forall>e \<in> set (queue st). (lk, k) \<le> e"
      "k \<in> visited st \<or> (\<exists>y. lam st k = Some (Fin y) \<and> y < lk)"
      "dijkstra_step gp hs st = Inr (st\<lparr>queue := remove1 (lk, k) (queue st)\<rparr>)"
  | (visit) lk k st' where "(lk, k) \<in> set (queue st)" "\<forall>e \<in> set (queue st). (lk, k) \<le> e"
      "k \<notin> visited st" "lam st k = Some (Fin lk)"
      "relax k lk (get_neighbors gp k)
         (mark_visited hs k (Fin lk) (remove1 (lk, k) (queue st)) st) = Inr st'"
      "dijkstra_step gp hs st = Inr st'"
proof -
  from heappop_nonempty[OF q] obtain m q' where pop: "heappop (queue st) = Inr (m, q')" by blast
  obtain lk k where m: "m = (lk, k)" by (cases m)
  note hp = heappop_Inr[OF pop[unfolded m]]
  from inv_queueD1[OF iq hp(1)] obtain y where y: "lam st k = Some (Fin y)" "y \<le> lk"
    by blast
  show thesis
  proof (cases "y < lk \<or> k \<in> visited st")
    case True
    then have "dijkstra_step gp hs st = Inr (st\<lparr>queue := remove1 (lk, k) (queue st)\<rparr>)"
      using pop m y hp(2) by (auto simp: dijkstra_step_def)
    with True y hp show ?thesis by (intro skip[of lk k]) auto
  next
    case False
    with y have eq: "y = lk" and nv: "k \<notin> visited st" by auto
    define S where "S = mark_visited hs k (Fin lk) (remove1 (lk, k) (queue st)) st"
    have "\<forall>(n, a) \<in> set (get_neighbors gp k). n \<in> visited S \<or> lam S n \<noteq> None"
      using closed_graphD[OF cl] inv_lamD2[OF il] by (auto simp: S_def mark_visited_simps)
    from relax_total[OF this] obtain st' where
      r: "relax k lk (get_neighbors gp k) S = Inr st'" by blast
    have "dijkstra_step gp hs st = Inr st'"
      using pop m y eq nv hp(2) r by (simp add: dijkstra_step_def S_def)
    with r y eq nv hp show ?thesis unfolding S_def by (intro visit[of lk k st']) auto
  qed
qed

lemma chain_cong:
  "chain p n path \<Longrightarrow> (\<And>m. m \<in> set path \<Longrightarrow> p' m = p m) \<Longrightarrow> chain p' n path"
proof (induction rule: chain.induct)
  case (chain_end n)
  then have "pred_get p' n = None" by (simp add: pred_get_def)
  then show ?case by (rule chain.chain_end)
next
  case (chain_step n u path)
  from chain_step.prems have "pred_get p' n = Some u"
    using chain_step.hyps(1) by (simp add: pred_get_def)
  moreover have "chain p' u path" using chain_step.IH chain_step.prems by simp
  ultimately show ?case by (rule chain.chain_step)
qed

lemma chain_hd: "chain p n path \<Longrightarrow> path \<noteq> [] \<and> hd path = n"
  by (induction rule: chain.induct) auto

lemma inv_start_destination:
  assumes "inv_start d hs st" "(lk, k) \<in> set (queue st)"
  shows "d \<in> insert k (visited st)"
  using assms by (auto simp: inv_start_def)

lemma visit_preserves_basic:
  assumes inv: "inv_basic V gp d hs st"
    and mem: "(lk, k) \<in> set (queue st)" and nv: "k \<notin> visited st"
    and lamk: "lam st k = Some (Fin lk)"
    and r: "relax k lk (get_neighbors gp k)
              (mark_visited hs k (Fin lk) (remove1 (lk, k) (queue st)) st) = Inr st'"
  shows "inv_basic V gp d hs st'"
proof -
  from inv have il: "inv_lam V d st" and iq: "inv_queue st" and ip: "inv_pred gp d st"
    and ifo: "inv_found hs st" and ist: "inv_start d hs st"
    by (auto simp: inv_basic_def)
  note vis' = relax_visited[OF r, unfolded mark_visited_simps]
  note fnd' = relax_found[OF r, unfolded mark_visited_simps]
  note same = relax_visited_same[OF r, unfolded mark_visited_simps]
  note mono = relax_mono[OF r, unfolded mark_visited_simps]
  note dom = relax_dom[OF r, unfolded mark_visited_simps]
  note qmono = relax_queue_mono[OF r, unfolded mark_visited_simps]
  note qnew = relax_queue_new[OF r, unfolded mark_visited_simps]
  note chg = relax_changed[OF r, unfolded mark_visited_simps]
  note dvis = inv_start_destination[OF ist mem]
  have kf: "k \<notin> fst ` set (found_hospitals st)"
    using inv_foundD2[OF ifo] nv by simp
  have fnd: "found_hospitals st' =
      (if k \<in> set hs then found_hospitals st @ [(k, Fin lk)] else found_hospitals st)"
    using fnd' kf by simp

  have "inv_lam V d st'"
    unfolding inv_lam_def
  proof (intro conjI allI ballI)
    show "lam st' d = Some (Fin 0)" using same[OF dvis] inv_lamD1[OF il] by simp
    show "lam st' n = None \<longleftrightarrow> n \<notin> insert d V" for n
      using dom inv_lamD2[OF il] by simp
    show "pred st' n \<noteq> None" if "n \<in> V" for n
    proof (cases "pred st' n = pred st n")
      case True
      then show ?thesis using inv_lamD3[OF il that] by simp
    next
      case False
      then show ?thesis using chg[of n] by auto
    qed
  qed

  moreover have "inv_queue st'"
    unfolding inv_queue_def
  proof (intro conjI allI impI ballI)
    fix x n assume xn: "(x, n) \<in> set (queue st')"
    from qnew[OF xn] show "\<exists>y. lam st' n = Some (Fin y) \<and> y \<le> x"
    proof
      assume "(x, n) \<in> set (remove1 (lk, k) (queue st))"
      then have "(x, n) \<in> set (queue st)" using set_remove1_subset by fast
      from inv_queueD1[OF iq this] obtain y where y: "lam st n = Some (Fin y)" "y \<le> x" by blast
      from mono[OF y(1)] y(2) show ?thesis by force
    next
      assume "n \<notin> insert k (visited st) \<and>
        (\<exists>a. (n, a) \<in> set (get_neighbors gp k) \<and> x = lk + cw a) \<and>
        (\<exists>z\<le>x. lam st' n = Some (Fin z))"
      then show ?thesis by blast
    qed
  next
    fix n y assume ny: "lam st' n = Some (Fin y)"
    show "n \<in> visited st' \<or> (y, n) \<in> set (queue st')"
    proof (cases "lam st' n = lam st n")
      case True
      with ny have "lam st n = Some (Fin y)" by simp
      from inv_queueD2[OF iq this] show ?thesis
      proof
        assume "n \<in> visited st"
        then show ?thesis using vis' by simp
      next
        assume q: "(y, n) \<in> set (queue st)"
        show ?thesis
        proof (cases "(y, n) = (lk, k)")
          case True
          then show ?thesis using vis' by simp
        next
          case False
          from in_remove1[OF q False] qmono show ?thesis by blast
        qed
      qed
    next
      case False
      with chg[of n] ny show ?thesis by auto
    qed
  next
    fix n assume "n \<in> visited st'"
    then have n: "n \<in> insert k (visited st)" using vis' by simp
    then have "\<exists>y. lam st n = Some (Fin y)"
      using inv_queueD3[OF iq] lamk by auto
    with same[OF n] show "\<exists>y. lam st' n = Some (Fin y)" by simp
  qed

  moreover have "inv_pred gp d st'"
    unfolding inv_pred_def
  proof (rule conjI[OF _ conjI]; intro allI impI ballI)
    fix n u assume pu: "pred_get (pred st') n = Some u"
    show "u \<in> visited st' \<and> n \<noteq> d \<and>
        (\<exists>a y. (n, a) \<in> set (get_neighbors gp u) \<and> lam st' u = Some (Fin y) \<and>
               lam st' n = Some (Fin (y + cw a)))"
    proof (cases "lam st' n \<noteq> lam st n \<or> pred st' n \<noteq> pred st n")
      case True
      from chg[OF True] obtain a where
        c: "n \<notin> insert k (visited st)" "pred st' n = Some (Some k)"
          "(n, a) \<in> set (get_neighbors gp k)" "lam st' n = Some (Fin (lk + cw a))"
        by blast
      from c(2) pu have "u = k" by (simp add: pred_get_def)
      moreover have "lam st' k = Some (Fin lk)" using same[of k] lamk by simp
      moreover have "n \<noteq> d" using c(1) dvis by auto
      ultimately show ?thesis using c vis' by auto
    next
      case False
      then have eq: "lam st' n = lam st n" "pred st' n = pred st n" by auto
      from pu eq(2) have "pred_get (pred st) n = Some u" by (simp add: pred_get_def)
      from inv_predD1[OF ip this] obtain a y where
        o: "u \<in> visited st" "n \<noteq> d" "(n, a) \<in> set (get_neighbors gp u)"
          "lam st u = Some (Fin y)" "lam st n = Some (Fin (y + cw a))" by blast
      have "lam st' u = lam st u" using same[of u] o(1) by simp
      with o eq vis' show ?thesis by auto
    qed
  next
    fix n y assume h: "lam st' n = Some (Fin y) \<and> n \<noteq> d"
    show "pred_get (pred st') n \<noteq> None"
    proof (cases "lam st' n \<noteq> lam st n \<or> pred st' n \<noteq> pred st n")
      case True
      from chg[OF True] show ?thesis by (auto simp: pred_get_def)
    next
      case False
      then have eq: "lam st' n = lam st n" "pred st' n = pred st n" by auto
      from h eq(1) have "lam st n = Some (Fin y)" "n \<noteq> d" by auto
      from inv_predD2[OF ip this] eq(2) show ?thesis by (simp add: pred_get_def)
    qed
  next
    fix n assume "n \<in> visited st'"
    then have n: "n \<in> insert k (visited st)" using vis' by simp
    have old: "\<exists>path. chain (pred st') m path \<and> set path \<subseteq> visited st'"
      if m: "m \<in> visited st" for m
    proof -
      from inv_predD3[OF ip m] obtain path where
        p: "chain (pred st) m path" "set path \<subseteq> visited st" by blast
      have "chain (pred st') m path"
        using p(1)
      proof (rule chain_cong)
        fix x assume "x \<in> set path"
        with p(2) have "x \<in> insert k (visited st)" by auto
        from same[OF this] show "pred st' x = pred st x" by simp
      qed
      with p(2) vis' show ?thesis by auto
    qed
    show "\<exists>path. chain (pred st') n path \<and> set path \<subseteq> visited st'"
    proof (cases "n \<in> visited st")
      case True
      then show ?thesis by (rule old)
    next
      case False
      with n have nk: "n = k" by simp
      have pk: "pred st' k = pred st k" using same[of k] by simp
      show ?thesis
      proof (cases "pred_get (pred st) k")
        case None
        then have "pred_get (pred st') k = None" using pk by (simp add: pred_get_def)
        then have "chain (pred st') n [k]" unfolding nk by (rule chain.chain_end)
        moreover have "set [k] \<subseteq> visited st'" using vis' by simp
        ultimately show ?thesis by blast
      next
        case (Some u)
        from inv_predD1[OF ip Some] have "u \<in> visited st" by blast
        from old[OF this] obtain path where
          p: "chain (pred st') u path" "set path \<subseteq> visited st'" by blast
        have "pred_get (pred st') k = Some u" using Some pk by (simp add: pred_get_def)
        from chain.chain_step[OF this p(1)] have "chain (pred st') n (k # path)"
          using nk by simp
        moreover have "set (k # path) \<subseteq> visited st'" using p(2) vis' by auto
        ultimately show ?thesis by blast
      qed
    qed
  qed

  moreover have "inv_found hs st'"
    unfolding inv_found_def
  proof (intro conjI allI impI)
    show "distinct (map fst (found_hospitals st'))"
      using inv_foundD1[OF ifo] kf fnd by auto
    show "fst ` set (found_hospitals st') = visited st' \<inter> set hs"
      using inv_foundD2[OF ifo] fnd vis' by auto
    fix h v assume hv: "(h, v) \<in> set (found_hospitals st')"
    then consider (old) "(h, v) \<in> set (found_hospitals st)" | (new) "h = k" "v = Fin lk"
      using fnd by (auto split: if_splits)
    then show "lam st' h = Some v"
    proof cases
      case old
      then have "h \<in> visited st" using inv_foundD2[OF ifo] by force
      then have "lam st' h = lam st h" using same[of h] by simp
      with inv_foundD3[OF ifo old] show ?thesis by simp
    next
      case new
      then show ?thesis using same[of k] lamk by simp
    qed
  qed

  moreover have "inv_start d hs st'"
  proof -
    from ist consider
      (first) "visited st = {}" "found_hospitals st = []" "queue st = [(0, d)]"
      | (later) "d \<in> visited st" "d \<in> set hs \<longrightarrow> (\<exists>rest. found_hospitals st = (d, Fin 0) # rest)"
      by (auto simp: inv_start_def)
    then show ?thesis
    proof cases
      case first
      with mem have "k = d" "lk = 0" by auto
      with first fnd vis' show ?thesis by (auto simp: inv_start_def)
    next
      case later
      with fnd vis' show ?thesis by (auto simp: inv_start_def)
    qed
  qed

  ultimately show ?thesis by (simp add: inv_basic_def)
qed

lemma skip_preserves_basic:
  assumes inv: "inv_basic V gp d hs st"
    and mem: "(lk, k) \<in> set (queue st)"
    and sk: "k \<in> visited st \<or> (\<exists>y. lam st k = Some (Fin y) \<and> y < lk)"
  shows "inv_basic V gp d hs (st\<lparr>queue := remove1 (lk, k) (queue st)\<rparr>)"
proof -
  from inv have il: "inv_lam V d st" and iq: "inv_queue st" and ip: "inv_pred gp d st"
    and ifo: "inv_found hs st" and ist: "inv_start d hs st"
    by (auto simp: inv_basic_def)
  let ?st = "st\<lparr>queue := remove1 (lk, k) (queue st)\<rparr>"
  have sub: "set (remove1 (lk, k) (queue st)) \<subseteq> set (queue st)"
    by (rule set_remove1_subset)
  have "inv_lam V d ?st" using il by (simp add: inv_lam_def)
  moreover have "inv_queue ?st"
    unfolding inv_queue_def
  proof (intro conjI allI impI ballI)
    fix x n assume "(x, n) \<in> set (queue ?st)"
    with sub have "(x, n) \<in> set (queue st)" by auto
    from inv_queueD1[OF iq this] show "\<exists>y. lam ?st n = Some (Fin y) \<and> y \<le> x" by simp
  next
    fix n y assume "lam ?st n = Some (Fin y)"
    then have l: "lam st n = Some (Fin y)" by simp
    from inv_queueD2[OF iq l] show "n \<in> visited ?st \<or> (y, n) \<in> set (queue ?st)"
    proof
      assume "n \<in> visited st"
      then show ?thesis by simp
    next
      assume q: "(y, n) \<in> set (queue st)"
      show ?thesis
      proof (cases "(y, n) = (lk, k)")
        case True
        with sk l show ?thesis by auto
      next
        case False
        from in_remove1[OF q False] show ?thesis by simp
      qed
    qed
  next
    fix n assume "n \<in> visited ?st"
    then show "\<exists>y. lam ?st n = Some (Fin y)" using inv_queueD3[OF iq] by simp
  qed
  moreover have "inv_pred gp d ?st" using ip by (simp add: inv_pred_def)
  moreover have "inv_found hs ?st" using ifo by (simp add: inv_found_def)
  moreover have "inv_start d hs ?st"
  proof -
    from ist consider
      (first) "visited st = {}" "found_hospitals st = []" "queue st = [(0, d)]"
      | (later) "d \<in> visited st" "d \<in> set hs \<longrightarrow> (\<exists>rest. found_hospitals st = (d, Fin 0) # rest)"
      by (auto simp: inv_start_def)
    then show ?thesis
    proof cases
      case first
      with mem have "k = d" "lk = 0" by auto
      with sk first inv_lamD1[OF il] show ?thesis by auto
    next
      case later
      then show ?thesis by (auto simp: inv_start_def)
    qed
  qed
  ultimately show ?thesis by (simp add: inv_basic_def)
qed

lemma step_preserves_basic:
  assumes inv: "inv_basic V gp d hs st" and cl: "closed_graph V gp" and q: "queue st \<noteq> []"
  shows "\<exists>st'. dijkstra_step gp hs st = Inr st' \<and> inv_basic V gp d hs st'"
proof -
  from inv have il: "inv_lam V d st" and iq: "inv_queue st" by (auto simp: inv_basic_def)
  from q il iq cl show ?thesis
  proof (cases rule: dijkstra_step_cases[where hs = hs])
    case (skip lk k)
    from skip_preserves_basic[OF inv skip(1,3)] skip(4) show ?thesis by simp
  next
    case (visit lk k st')
    from visit_preserves_basic[OF inv visit(1,3,4,5)] visit(6) show ?thesis by simp
  qed
qed

lemma init_state_basic: "inv_basic V gp d hs (init_state V d)"
  by (auto simp: inv_basic_def inv_lam_def inv_queue_def inv_pred_def inv_found_def
      inv_start_def init_state_def heappush_def pred_get_def split: if_splits)

lemma dijkstra_loop_invariant:
  assumes "I st"
    and "\<And>s. I s \<Longrightarrow> queue s \<noteq> [] \<Longrightarrow> \<exists>s'. dijkstra_step gp hs s = Inr s' \<and> I s'"
  shows "\<exists>st'. dijkstra_loop gp hs st = Inr st' \<and> I st' \<and> queue st' = []"
  using assms
proof (induction gp hs st rule: dijkstra_loop.induct)
  case (1 gp hs st)
  show ?case
  proof (cases "queue st = []")
    case True
    with "1.prems"(1) show ?thesis by (simp add: dijkstra_loop.simps)
  next
    case False
    from "1.prems"(2)[OF "1.prems"(1) False] obtain s' where
      s': "dijkstra_step gp hs st = Inr s'" "I s'"
      by blast
    from "1.IH"[OF False s'(1) s'(2) "1.prems"(2)] s'(1) False show ?thesis
      by (simp add: dijkstra_loop.simps[of gp hs st])
  qed
qed

section \<open>The search and the reconstruction return\<close>

lemma wf_graph_inner:
  assumes "wf_graph gp" "map_of gp u = Some nb"
  shows "distinct (map fst nb)"
proof -
  from assms(2) have "(u, nb) \<in> set gp" by (rule map_of_SomeD)
  then have "nb \<in> snd ` set gp" by force
  with assms(1) show ?thesis unfolding wf_graph_def by blast
qed

lemma get_neighbors_lookup:
  assumes "wf_graph gp"
  shows "(n, a) \<in> set (get_neighbors gp u) \<longleftrightarrow> lookup_edge gp u n = Some a"
proof (cases "map_of gp u")
  case None
  then show ?thesis by (simp add: get_neighbors_def lookup_edge_def)
next
  case (Some nb)
  from wf_graph_inner[OF assms Some] have "(n, a) \<in> set nb \<longleftrightarrow> map_of nb n = Some a"
    by simp
  then show ?thesis using Some by (simp add: get_neighbors_def lookup_edge_def)
qed

lemma get_neighbors_edges:
  assumes "wf_graph gp"
  shows "(n, a) \<in> set (get_neighbors gp u) \<longleftrightarrow> (u, n, a) \<in> edges gp"
  by (simp add: get_neighbors_lookup[OF assms] edges_lookup[OF assms])

lemma in_graph_nodes:
  assumes "(u, nb) \<in> set g" "(v, a) \<in> set nb"
  shows "u \<in> get_all_nodes g" "v \<in> get_all_nodes g"
proof -
  have "u \<in> set (u # map fst nb)" by simp
  moreover have "v \<in> set (u # map fst nb)" using assms(2) by force
  moreover have "set (u # map fst nb) \<subseteq> get_all_nodes g"
  proof -
    have "u # map fst nb \<in> (\<lambda>(u, neighbors). u # map fst neighbors) ` set g"
      using assms(1) by (rule rev_image_eqI) simp
    then show ?thesis
      unfolding get_all_nodes_def collect_vertices_def set_concat set_map by blast
  qed
  ultimately show "u \<in> get_all_nodes g" "v \<in> get_all_nodes g" by blast+
qed

lemma lookup_edge_nodes:
  assumes "lookup_edge g u v = Some a"
  shows "u \<in> get_all_nodes g" "v \<in> get_all_nodes g"
proof -
  from assms obtain nb where nb: "map_of g u = Some nb" "map_of nb v = Some a"
    by (auto simp: lookup_edge_def split: option.splits)
  then have m: "(u, nb) \<in> set g" "(v, a) \<in> set nb" by (auto dest: map_of_SomeD)
  from in_graph_nodes[OF m] show "u \<in> get_all_nodes g" "v \<in> get_all_nodes g" .
qed

lemma init_correct:
  assumes "wf_graph g" "set_order (get_all_nodes g) vs"
  shows "\<exists>self. init vs g = Inr self \<and> self_G self = g \<and> self_V self = get_all_nodes g \<and>
           wf_graph (self_G_prime self) \<and>
           fst ` set (self_G_prime self) = get_all_nodes g \<and>
           (\<forall>v u. lookup_edge (self_G_prime self) v u = lookup_edge g u v) \<and>
           closed_graph (self_V self) (self_G_prime self)"
proof -
  from assms(2) have vs: "set vs = get_all_nodes g" by (simp add: set_order_def)
  from reverse_graph_correct[OF assms(1) vs] obtain gp where
    r: "reverse_graph vs g = Inr gp" and wf: "wf_graph gp" and keys: "fst ` set gp = get_all_nodes g"
    and look: "\<forall>v u. lookup_edge gp v u = lookup_edge g u v" by blast
  have "closed_graph (get_all_nodes g) gp"
    unfolding closed_graph_def
  proof (intro allI impI)
    fix u n a assume "(n, a) \<in> set (get_neighbors gp u)"
    then have "lookup_edge gp u n = Some a" by (simp add: get_neighbors_lookup[OF wf])
    with look have "lookup_edge g n u = Some a" by simp
    then show "n \<in> get_all_nodes g" by (rule lookup_edge_nodes(1))
  qed
  with r wf keys look show ?thesis by (simp add: init_def)
qed

subsection \<open>The search returns\<close>

lemma search_basic:
  assumes "closed_graph V gp"
  shows "\<exists>st. dijkstra_loop gp hs (init_state V d) = Inr st \<and> inv_basic V gp d hs st \<and> queue st = []"
proof (rule dijkstra_loop_invariant[where I = "inv_basic V gp d hs"])
  show "inv_basic V gp d hs (init_state V d)" by (rule init_state_basic)
next
  fix s assume "inv_basic V gp d hs s" "queue s \<noteq> []"
  then show "\<exists>s'. dijkstra_step gp hs s = Inr s' \<and> inv_basic V gp d hs s'"
    using assms by (intro step_preserves_basic)
qed

lemma final_visited:
  assumes "inv_basic V gp d hs st" "queue st = []"
  shows "n \<in> visited st \<longleftrightarrow> (\<exists>y. lam st n = Some (Fin y))"
proof -
  from assms(1) have iq: "inv_queue st" by (simp add: inv_basic_def)
  show ?thesis using inv_queueD2[OF iq] inv_queueD3[OF iq] assms(2) by auto
qed

lemma final_found:
  assumes "inv_basic V gp d hs st" "queue st = []"
  shows "fst ` set (found_hospitals st) = {h \<in> set hs. \<exists>y. lam st h = Some (Fin y)}"
proof -
  from assms(1) have ifo: "inv_found hs st" by (simp add: inv_basic_def)
  show ?thesis using inv_foundD2[OF ifo] final_visited[OF assms] by auto
qed

subsection \<open>Path reconstruction returns\<close>

lemma follow_pred_chain:
  "chain p n path \<Longrightarrow> follow_pred p (Some n) acc = Some (acc @ path)"
proof (induction arbitrary: acc rule: chain.induct)
  case (chain_end n)
  then show ?case by (simp add: follow_pred.simps[of p "Some n"] follow_pred.simps[of p None])
next
  case (chain_step n u path)
  from chain_step.IH[of "acc @ [n]"] chain_step.hyps(1) show ?case
    by (simp add: follow_pred.simps[of p "Some n"])
qed

lemma found_follow_pred:
  assumes "inv_basic V gp d hs st" "h \<in> fst ` set (found_hospitals st)"
  shows "\<exists>path. follow_pred (pred st) (Some h) [] = Some path"
proof -
  from assms(1) have ifo: "inv_found hs st" and ip: "inv_pred gp d st"
    by (simp_all add: inv_basic_def)
  from assms(2) inv_foundD2[OF ifo] have "h \<in> visited st" by auto
  from inv_predD3[OF ip this] obtain path where "chain (pred st) h path" by blast
  from follow_pred_chain[OF this, of "[]"] show ?thesis by simp
qed

lemma calculate_route_metrics_total: "\<exists>m. calculate_route_metrics self rt = Inr m"
  by (simp add: calculate_route_metrics_def metrics_loop_total)

lemma hospital_details_loop_total:
  assumes "\<forall>h \<in> fst ` set fs. \<exists>path. follow_pred p (Some h) [] = Some path"
    and "distinct (map fst fs)" and "fst ` set fs \<inter> fst ` set acc = {}"
  shows "\<exists>ds. hospital_details_loop self p fs acc = Some (Inr ds) \<and>
           map (\<lambda>(h, dt). (h, lam_h dt)) ds = map (\<lambda>(h, dt). (h, lam_h dt)) acc @ fs"
  using assms
proof (induction fs arbitrary: acc)
  case Nil
  then show ?case by simp
next
  case (Cons f fs)
  obtain h v where f: "f = (h, v)" by (cases f)
  from Cons.prems(1) f obtain path where path: "follow_pred p (Some h) [] = Some path" by auto
  obtain m where m: "calculate_route_metrics self (rev path) = Inr m"
    using calculate_route_metrics_total by blast
  define dt where "dt = \<lparr>travel_time = travel_time m, total_cost = total_cost m,
      it_components = it_components m, lam_h = v, route = rev path\<rparr>"
  have hacc: "h \<notin> fst ` set acc" using Cons.prems(3) f by auto
  then have upd: "AList.update h dt acc = acc @ [(h, dt)]" by (rule update_absent)
  have 1: "\<forall>h \<in> fst ` set fs. \<exists>path. follow_pred p (Some h) [] = Some path"
    using Cons.prems(1) by simp
  have 2: "distinct (map fst fs)" using Cons.prems(2) by simp
  have 3: "fst ` set fs \<inter> fst ` set (acc @ [(h, dt)]) = {}"
    using Cons.prems(2,3) f by auto
  from Cons.IH[OF 1 2 3] obtain ds where
    ds: "hospital_details_loop self p fs (acc @ [(h, dt)]) = Some (Inr ds)"
      "map (\<lambda>(h, dt). (h, lam_h dt)) ds =
         map (\<lambda>(h, dt). (h, lam_h dt)) (acc @ [(h, dt)]) @ fs" by blast
  have "hospital_details_loop self p (f # fs) acc = Some (Inr ds)"
    using path m ds(1) upd by (simp add: f dt_def Let_def)
  moreover have "map (\<lambda>(h, dt). (h, lam_h dt)) ds = map (\<lambda>(h, dt). (h, lam_h dt)) acc @ f # fs"
    using ds(2) by (simp add: f dt_def)
  ultimately show ?case by blast
qed

subsection \<open>The minimum\<close>

lemma dist_less_irrefl [simp]: "\<not> dist_less a a"
  by (cases a) auto

lemma dist_less_trans: "dist_less a b \<Longrightarrow> dist_less b c \<Longrightarrow> dist_less a c"
  by (cases a; cases b; cases c) auto

lemma dist_less_le_trans: "dist_less a b \<Longrightarrow> \<not> dist_less c b \<Longrightarrow> dist_less a c"
  by (cases a; cases b; cases c) auto

lemma dist_less_asym: "dist_less a b \<Longrightarrow> \<not> dist_less b a"
  by (cases a; cases b) auto

lemma first_min_step:
  assumes "first_min xs b"
  shows "first_min (xs @ [x]) (min_step x b)"
proof -
  from assms obtain i where i: "i < length xs" "xs ! i = b"
    and all: "\<forall>j<length xs. \<not> dist_less (snd (xs ! j)) (snd b)"
    and before: "\<forall>j<i. dist_less (snd b) (snd (xs ! j))"
    by (auto simp: first_min_def)
  show ?thesis
  proof (cases "dist_less (snd x) (snd b)")
    case True
    have "\<forall>j<length (xs @ [x]). \<not> dist_less (snd ((xs @ [x]) ! j)) (snd x)"
    proof (intro allI impI)
      fix j assume j: "j < length (xs @ [x])"
      show "\<not> dist_less (snd ((xs @ [x]) ! j)) (snd x)"
      proof (cases "j < length xs")
        case jl: True
        with all have "\<not> dist_less (snd (xs ! j)) (snd b)" by simp
        with True have "dist_less (snd x) (snd (xs ! j))" by (rule dist_less_le_trans)
        then show ?thesis using jl by (simp add: nth_append dist_less_asym)
      next
        case False
        with j have "j = length xs" by simp
        then show ?thesis by simp
      qed
    qed
    moreover have "\<forall>j<length xs. dist_less (snd x) (snd ((xs @ [x]) ! j))"
    proof (intro allI impI)
      fix j assume jl: "j < length xs"
      with all have "\<not> dist_less (snd (xs ! j)) (snd b)" by simp
      with True have "dist_less (snd x) (snd (xs ! j))" by (rule dist_less_le_trans)
      then show "dist_less (snd x) (snd ((xs @ [x]) ! j))" using jl by (simp add: nth_append)
    qed
    ultimately show ?thesis
      using True unfolding first_min_def min_step_def
      by (intro exI[of _ "length xs"]) simp
  next
    case False
    have "\<forall>j<length (xs @ [x]). \<not> dist_less (snd ((xs @ [x]) ! j)) (snd b)"
    proof (intro allI impI)
      fix j assume j: "j < length (xs @ [x])"
      show "\<not> dist_less (snd ((xs @ [x]) ! j)) (snd b)"
      proof (cases "j < length xs")
        case True
        with all show ?thesis by (simp add: nth_append)
      next
        case nl: False
        with j have "j = length xs" by simp
        then show ?thesis using False by simp
      qed
    qed
    moreover have "\<forall>j<i. dist_less (snd b) (snd ((xs @ [x]) ! j))"
      using before i(1) by (simp add: nth_append)
    moreover have "(xs @ [x]) ! i = b" using i by (simp add: nth_append)
    ultimately show ?thesis
      using False i(1) unfolding first_min_def min_step_def
      by (intro exI[of _ i]) simp
  qed
qed

lemma first_min_fold:
  "first_min xs b \<Longrightarrow> first_min (xs @ ps) (fold min_step ps b)"
proof (induction ps arbitrary: xs b)
  case Nil
  then show ?case by simp
next
  case (Cons x ps)
  from Cons.IH[OF first_min_step[OF Cons.prems, of x]] show ?case by simp
qed

lemma min_by_value_first_min:
  assumes "fs \<noteq> []"
  shows "\<exists>b. min_by_value fs = Inr (fst b) \<and> first_min fs b"
proof -
  from assms obtain p ps where fs: "fs = p # ps" by (cases fs) auto
  have "first_min [p] p" by (simp add: first_min_def)
  from first_min_fold[OF this, of ps] have "first_min fs (fold min_step ps p)" by (simp add: fs)
  moreover have "min_by_value fs = Inr (fst (fold min_step ps p))" by (simp add: fs)
  ultimately show ?thesis by blast
qed

section \<open>The result of a query\<close>

lemma heappop_min:
  assumes "m \<in> set q" "\<forall>e \<in> set q. m \<le> e"
  shows "heappop q = Inr (m, remove1 m q)"
proof -
  from assms(1) obtain x xs where q: "q = x # xs" by (cases q) auto
  have "Min (set (x # xs)) = m"
    using assms unfolding q by (intro Min_eqI) auto
  then have "fold min xs x = m" by (simp only: fold_min_Min)
  then show ?thesis by (simp add: q Let_def)
qed

lemma find_optimal_dispatch_result:
  assumes cl: "closed_graph (self_V self) (self_G_prime self)"
  shows "\<exists>st. dijkstra_loop (self_G_prime self) hs (init_state (self_V self) d) = Inr st \<and>
           inv_basic (self_V self) (self_G_prime self) d hs st \<and> queue st = [] \<and>
           (found_hospitals st = [] \<and>
              find_optimal_dispatch self d hs = Some (Inr (Error ''No reachable hospitals found''))
            \<or> found_hospitals st \<noteq> [] \<and>
              (\<exists>r b path. find_optimal_dispatch self d hs = Some (Inr (Found r)) \<and>
                 first_min (found_hospitals st) b \<and>
                 optimal_hospital r = fst b \<and> optimal_cost r = snd b \<and>
                 follow_pred (pred st) (Some (fst b)) [] = Some path \<and>
                 optimal_route r = rev path \<and>
                 map (\<lambda>(h, dt). (h, lam_h dt)) (all_hospitals r) = found_hospitals st \<and>
                 pred_dict r = pred st \<and> lambda_dict r = lam st))"
proof -
  from search_basic[OF cl, of hs d] obtain st where
    st: "dijkstra_loop (self_G_prime self) hs (init_state (self_V self) d) = Inr st"
    and inv: "inv_basic (self_V self) (self_G_prime self) d hs st" and q: "queue st = []"
    by blast
  from inv have ifo: "inv_found hs st" by (simp add: inv_basic_def)
  show ?thesis
  proof (cases "found_hospitals st = []")
    case True
    then have "find_optimal_dispatch self d hs = Some (Inr (Error ''No reachable hospitals found''))"
      using st by (simp add: find_optimal_dispatch_def)
    with st inv q True show ?thesis by blast
  next
    case False
    from min_by_value_first_min[OF False] obtain b where
      b: "min_by_value (found_hospitals st) = Inr (fst b)" "first_min (found_hospitals st) b"
      by blast
    from b(2) have bin: "b \<in> set (found_hospitals st)"
      by (auto simp: first_min_def)
    then have "(fst b, snd b) \<in> set (found_hospitals st)" by simp
    with inv_foundD1[OF ifo] have "map_of (found_hospitals st) (fst b) = Some (snd b)"
      by (rule map_of_is_SomeI)
    then have sub: "subscript (found_hospitals st) (fst b) = Inr (snd b)"
      by (simp add: subscript_def)
    from bin have "fst b \<in> fst ` set (found_hospitals st)" by (rule imageI)
    from found_follow_pred[OF inv this] obtain path where
      path: "follow_pred (pred st) (Some (fst b)) [] = Some path" by blast
    obtain m where m: "calculate_route_metrics self (rev path) = Inr m"
      using calculate_route_metrics_total by blast
    have "\<forall>h \<in> fst ` set (found_hospitals st).
            \<exists>path. follow_pred (pred st) (Some h) [] = Some path"
      using found_follow_pred[OF inv] by blast
    from hospital_details_loop_total[OF this inv_foundD1[OF ifo], of "[]" self]
    obtain ds where ds: "hospital_details_loop self (pred st) (found_hospitals st) [] = Some (Inr ds)"
      "map (\<lambda>(h, dt). (h, lam_h dt)) ds = found_hospitals st" by auto
    define r where "r = \<lparr>optimal_hospital = fst b, optimal_cost = snd b,
        optimal_route = rev path, all_hospitals = ds, pred_dict = pred st,
        lambda_dict = lam st\<rparr>"
    have "find_optimal_dispatch self d hs = Some (Inr (Found r))"
      using st False b(1) sub path m ds(1)
      by (simp add: find_optimal_dispatch_def Let_def r_def)
    moreover have "optimal_hospital r = fst b" "optimal_cost r = snd b" "optimal_route r = rev path"
      "map (\<lambda>(h, dt). (h, lam_h dt)) (all_hospitals r) = found_hospitals st"
      "pred_dict r = pred st" "lambda_dict r = lam st"
      using ds(2) by (simp_all add: r_def)
    ultimately show ?thesis using st inv q False b(2) path by blast
  qed
qed


lemma dispatch_query_result:
  assumes "wf_graph g" "set_order (get_all_nodes g) vs"
  shows "\<exists>self st. init vs g = Inr self \<and> self_G self = g \<and> self_V self = get_all_nodes g \<and>
           wf_graph (self_G_prime self) \<and>
           (\<forall>v u. lookup_edge (self_G_prime self) v u = lookup_edge g u v) \<and>
           dispatch_query vs g d hs = find_optimal_dispatch self d hs \<and>
           dijkstra_loop (self_G_prime self) hs (init_state (self_V self) d) = Inr st \<and>
           inv_basic (self_V self) (self_G_prime self) d hs st \<and> queue st = [] \<and>
           (found_hospitals st = [] \<and>
              dispatch_query vs g d hs = Some (Inr (Error ''No reachable hospitals found''))
            \<or> found_hospitals st \<noteq> [] \<and>
              (\<exists>r b path. dispatch_query vs g d hs = Some (Inr (Found r)) \<and>
                 first_min (found_hospitals st) b \<and>
                 optimal_hospital r = fst b \<and> optimal_cost r = snd b \<and>
                 follow_pred (pred st) (Some (fst b)) [] = Some path \<and>
                 optimal_route r = rev path \<and>
                 map (\<lambda>(h, dt). (h, lam_h dt)) (all_hospitals r) = found_hospitals st \<and>
                 pred_dict r = pred st \<and> lambda_dict r = lam st))"
proof -
  from init_correct[OF assms] obtain self where
    self: "init vs g = Inr self" "self_G self = g" "self_V self = get_all_nodes g"
      "wf_graph (self_G_prime self)"
      "\<forall>v u. lookup_edge (self_G_prime self) v u = lookup_edge g u v"
      "closed_graph (self_V self) (self_G_prime self)"
    by blast
  have dq: "dispatch_query vs g d hs = find_optimal_dispatch self d hs"
    using self(1) by (simp add: dispatch_query_def)
  from find_optimal_dispatch_result[OF self(6), of hs d] obtain st where
    st: "dijkstra_loop (self_G_prime self) hs (init_state (self_V self) d) = Inr st"
      "inv_basic (self_V self) (self_G_prime self) d hs st" "queue st = []"
      "found_hospitals st = [] \<and>
              find_optimal_dispatch self d hs = Some (Inr (Error ''No reachable hospitals found''))
            \<or> found_hospitals st \<noteq> [] \<and>
              (\<exists>r b path. find_optimal_dispatch self d hs = Some (Inr (Found r)) \<and>
                 first_min (found_hospitals st) b \<and>
                 optimal_hospital r = fst b \<and> optimal_cost r = snd b \<and>
                 follow_pred (pred st) (Some (fst b)) [] = Some path \<and>
                 optimal_route r = rev path \<and>
                 map (\<lambda>(h, dt). (h, lam_h dt)) (all_hospitals r) = found_hospitals st \<and>
                 pred_dict r = pred st \<and> lambda_dict r = lam st)"
    by blast
  show ?thesis
    apply (rule exI[of _ self], rule exI[of _ st])
    using self(1-5) dq st(1-3) st(4)[folded dq]
    apply (intro conjI)
             apply assumption+
    done
qed

text \<open>
  C6. With an empty list of candidates, or when the search ends with no candidate at a
  finite distance, \<^verbatim>\<open>find_optimal_dispatch\<close> returns the dictionary
  \<^verbatim>\<open>{'error': 'No reachable hospitals found'}\<close>; the constructor and the query raise nothing
  and return, whatever the candidates are (a node without a path keeps the distance
  \<open>inf\<close>, no exception stands for it).
\<close>

theorem no_reachable_candidate:
  assumes "wf_graph g" and "set_order (get_all_nodes g) vs"
  shows "\<exists>self st. init vs g = Inr self \<and>
           dijkstra_loop (self_G_prime self) hs (init_state (self_V self) d) = Inr st \<and>
           ((hs = [] \<or> (\<forall>h \<in> set hs. \<forall>y. lam st h \<noteq> Some (Fin y))) \<longrightarrow>
              dispatch_query vs g d hs = Some (Inr (Error ''No reachable hospitals found''))) \<and>
           (\<exists>res. dispatch_query vs g d hs = Some (Inr res))"
proof -
  from dispatch_query_result[OF assms, of d hs] obtain self st where
    a: "init vs g = Inr self"
      "dijkstra_loop (self_G_prime self) hs (init_state (self_V self) d) = Inr st"
      "inv_basic (self_V self) (self_G_prime self) d hs st" "queue st = []"
    and b: "found_hospitals st = [] \<and>
              dispatch_query vs g d hs = Some (Inr (Error ''No reachable hospitals found''))
            \<or> found_hospitals st \<noteq> [] \<and>
              (\<exists>r. dispatch_query vs g d hs = Some (Inr (Found r)))"
    by blast
  have none: "found_hospitals st = []"
    if "hs = [] \<or> (\<forall>h \<in> set hs. \<forall>y. lam st h \<noteq> Some (Fin y))"
  proof -
    from that final_found[OF a(3,4)] have "fst ` set (found_hospitals st) = {}" by auto
    then show ?thesis by simp
  qed
  have "(hs = [] \<or> (\<forall>h \<in> set hs. \<forall>y. lam st h \<noteq> Some (Fin y))) \<longrightarrow>
      dispatch_query vs g d hs = Some (Inr (Error ''No reachable hospitals found''))"
    using none b by blast
  moreover have "\<exists>res. dispatch_query vs g d hs = Some (Inr res)" using b by blast
  ultimately show ?thesis using a(1,2) by blast
qed

theorem no_reachable_candidate_witness:
  "wf_graph small_network \<and> set_order (get_all_nodes small_network) small_order \<and>
   dispatch_query small_order small_network ''B'' []
     = Some (Inr (Error ''No reachable hospitals found''))"
  using no_reachable_candidate [OF small_network_wf small_order_ok, of "[]" "''B''"]
    small_network_wf small_order_ok
  by auto

section \<open>Determinism\<close>

lemma get_neighbors_cong: "map_of gp = map_of gp' \<Longrightarrow> get_neighbors gp k = get_neighbors gp' k"
  by (simp add: get_neighbors_def)

lemma mark_visited_cong: "set hs = set hs' \<Longrightarrow> mark_visited hs k c q st = mark_visited hs' k c q st"
  by (simp add: mark_visited_def)

lemma dijkstra_step_cong:
  assumes "map_of gp = map_of gp'" "set hs = set hs'"
  shows "dijkstra_step gp hs st = dijkstra_step gp' hs' st"
  unfolding dijkstra_step_def get_neighbors_cong[OF assms(1)] mark_visited_cong[OF assms(2)]
  by (rule refl)

lemma dijkstra_loop_cong:
  assumes "map_of gp = map_of gp'" "set hs = set hs'"
  shows "dijkstra_loop gp hs st = dijkstra_loop gp' hs' st"
  using assms
proof (induction gp hs st rule: dijkstra_loop.induct)
  case (1 gp hs st)
  note step = dijkstra_step_cong[OF "1.prems", of st]
  show ?case
  proof (cases "queue st = []")
    case True
    then show ?thesis by (simp add: dijkstra_loop.simps)
  next
    case False
    show ?thesis
    proof (cases "dijkstra_step gp hs st")
      case (Inl e)
      with step have "dijkstra_step gp' hs' st = Inl e" by simp
      with False Inl show ?thesis
        by (simp add: dijkstra_loop.simps[of gp hs st] dijkstra_loop.simps[of gp' hs' st])
    next
      case (Inr s)
      with step have "dijkstra_step gp' hs' st = Inr s" by simp
      with "1.IH"[OF False Inr "1.prems"] Inr False show ?thesis
        by (simp add: dijkstra_loop.simps[of gp hs st] dijkstra_loop.simps[of gp' hs' st])
    qed
  qed
qed

lemma hospital_details_loop_cong:
  assumes "self_G self = self_G self'"
  shows "hospital_details_loop self p fs acc = hospital_details_loop self' p fs acc"
proof (induction fs arbitrary: acc)
  case Nil
  then show ?case by simp
next
  case (Cons f fs)
  obtain h v where f: "f = (h, v)" by (cases f)
  have m: "calculate_route_metrics self rt = calculate_route_metrics self' rt" for rt
    using assms by (simp add: calculate_route_metrics_def)
  show ?case unfolding f hospital_details_loop.simps m Cons.IH
    by (rule refl)
qed

lemma find_optimal_dispatch_cong:
  assumes "self_G self = self_G self'" "self_V self = self_V self'"
    "map_of (self_G_prime self) = map_of (self_G_prime self')" "set hs = set hs'"
  shows "find_optimal_dispatch self d hs = find_optimal_dispatch self' d hs'"
proof -
  have m: "calculate_route_metrics self rt = calculate_route_metrics self' rt" for rt
    using assms(1) by (simp add: calculate_route_metrics_def)
  show ?thesis
    unfolding find_optimal_dispatch_def dijkstra_loop_cong[OF assms(3,4)] assms(2) m
      hospital_details_loop_cong[OF assms(1)]
    by (rule refl)
qed

lemma reverse_neighbors_cong:
  "map_of gp1 = map_of gp2 \<Longrightarrow>
   rel_sum (=) (\<lambda>a b. map_of a = map_of b) (reverse_neighbors u nbs gp1) (reverse_neighbors u nbs gp2)"
proof (induction nbs arbitrary: gp1 gp2)
  case Nil
  then show ?case by simp
next
  case (Cons e nbs)
  obtain v a where e: "e = (v, a)" by (cases e)
  show ?case
  proof (cases "map_of gp1 v")
    case None
    with Cons.prems show ?thesis by (simp add: e)
  next
    case (Some inner)
    have "map_of (AList.update v (AList.update u a inner) gp1)
        = map_of (AList.update v (AList.update u a inner) gp2)"
      using Cons.prems by (simp add: update_conv')
    from Cons.IH[OF this] Some Cons.prems show ?thesis by (simp add: e)
  qed
qed

lemma reverse_edges_cong:
  "map_of gp1 = map_of gp2 \<Longrightarrow>
   rel_sum (=) (\<lambda>a b. map_of a = map_of b) (reverse_edges g gp1) (reverse_edges g gp2)"
proof (induction g arbitrary: gp1 gp2)
  case Nil
  then show ?case by simp
next
  case (Cons e g)
  obtain u nbs where e: "e = (u, nbs)" by (cases e)
  note rn = reverse_neighbors_cong[OF Cons.prems, of u nbs]
  show ?case
  proof (cases "reverse_neighbors u nbs gp1")
    case (Inl x)
    with rn show ?thesis by (cases "reverse_neighbors u nbs gp2") (simp_all add: e)
  next
    case (Inr r1)
    with rn obtain r2 where r2: "reverse_neighbors u nbs gp2 = Inr r2" "map_of r1 = map_of r2"
      by (cases "reverse_neighbors u nbs gp2") simp_all
    from Cons.IH[OF r2(2)] Inr r2(1) show ?thesis by (simp add: e)
  qed
qed

lemma map_of_init_vertices:
  "map_of (init_vertices vs) v = (if v \<in> set vs then Some [] else None)"
proof -
  have wf0: "wf_graph []" by (simp add: wf_graph_def)
  from init_vertices_aux[OF wf0, of vs] show ?thesis
    unfolding init_vertices_def by simp
qed

lemma init_cong:
  assumes "set vs = set vs'"
  shows "rel_sum (=) (\<lambda>s s'. self_G s = self_G s' \<and> self_V s = self_V s' \<and>
            map_of (self_G_prime s) = map_of (self_G_prime s')) (init vs g) (init vs' g)"
proof -
  have "map_of (init_vertices vs) = map_of (init_vertices vs')"
    using assms by (auto simp: map_of_init_vertices)
  note re = reverse_edges_cong[OF this, of g]
  show ?thesis
  proof (cases "reverse_edges g (init_vertices vs)")
    case (Inl x)
    with re show ?thesis
      by (cases "reverse_edges g (init_vertices vs')") (simp_all add: init_def reverse_graph_def)
  next
    case (Inr r1)
    with re show ?thesis
      by (cases "reverse_edges g (init_vertices vs')") (simp_all add: init_def reverse_graph_def)
  qed
qed

lemma dispatch_query_cong:
  assumes "set vs = set vs'" "set hs = set hs'"
  shows "dispatch_query vs g d hs = dispatch_query vs' g d hs'"
proof -
  note ic = init_cong[OF assms(1), of g]
  show ?thesis
  proof (cases "init vs g")
    case (Inl x)
    with ic show ?thesis by (cases "init vs' g") (simp_all add: dispatch_query_def)
  next
    case (Inr s)
    with ic obtain s' where s': "init vs' g = Inr s'" "self_G s = self_G s'"
      "self_V s = self_V s'" "map_of (self_G_prime s) = map_of (self_G_prime s')"
      by (cases "init vs' g") simp_all
    from find_optimal_dispatch_cong[OF s'(2,3,4) assms(2)] Inr s'(1) show ?thesis
      by (simp add: dispatch_query_def)
  qed
qed

text \<open>
  C7. A query is deterministic: the only choice that Python leaves open, the order in
  which the constructor iterates its vertex set, does not change the result (the selected
  hospital, its cost, its route and all the rest). The queue is popped in a determined
  order: the entry popped is the least one, an entry of the same distance having a node
  identifier that is not smaller in the lexicographic order, and the rest of the queue is
  the queue without one copy of that entry, however the entries are arranged.
\<close>

theorem dispatch_deterministic:
  assumes "set_order (get_all_nodes g) vs" and "set_order (get_all_nodes g) vs'"
  shows "dispatch_query vs g d hs = dispatch_query vs' g d hs \<and>
         (\<forall>q x k q'. heappop q = Inr ((x, k), q') \<longrightarrow>
            (x, k) \<in> set q \<and> q' = remove1 (x, k) q \<and>
            (\<forall>(y, n) \<in> set q. x < y \<or> (x = y \<and> k \<le> n))) \<and>
         (\<forall>q q'. mset q = mset q' \<longrightarrow>
            rel_sum (=) (\<lambda>(m, r) (m', r'). m = m' \<and> mset r = mset r') (heappop q) (heappop q'))"
proof (intro conjI allI impI)
  from assms have "set vs = set vs'" by (simp add: set_order_def)
  then show "dispatch_query vs g d hs = dispatch_query vs' g d hs"
    by (rule dispatch_query_cong) simp
next
  fix q x k q' assume pop: "heappop q = Inr ((x, k), q')"
  from heappop_Inr[OF pop] show "(x, k) \<in> set q" "q' = remove1 (x, k) q" by simp_all
  show "\<forall>(y, n) \<in> set q. x < y \<or> (x = y \<and> k \<le> n)"
  proof (rule ballI)
    fix e assume e: "e \<in> set q"
    obtain y n where yn: "e = (y, n)" by (cases e)
    from heappop_Inr(3)[OF pop] e yn have "(x, k) \<le> (y, n)" by blast
    then have "x < y \<or> (x = y \<and> k \<le> n)" by auto
    then show "case e of (y, n) \<Rightarrow> x < y \<or> (x = y \<and> k \<le> n)" by (simp add: yn)
  qed
next
  fix q q' :: heap assume ms: "mset q = mset q'"
  then have s: "set q = set q'" by (rule mset_eq_setD)
  show "rel_sum (=) (\<lambda>(m, r) (m', r'). m = m' \<and> mset r = mset r') (heappop q) (heappop q')"
  proof (cases "q = []")
    case True
    with ms have "q' = []" by simp
    with True show ?thesis by simp
  next
    case False
    with s have ne: "q' \<noteq> []" by auto
    from heappop_nonempty[OF False] obtain m r where p: "heappop q = Inr (m, r)" by blast
    note h = heappop_Inr[OF p]
    from h(1,3) s have "m \<in> set q'" "\<forall>e \<in> set q'. m \<le> e" by auto
    from heappop_min[OF this] have p': "heappop q' = Inr (m, remove1 m q')" .
    have "mset r = mset (remove1 m q')" using h(2) ms by simp
    with p p' show ?thesis by simp
  qed
qed

theorem dispatch_deterministic_witness:
  "set_order (get_all_nodes small_network) small_order \<and>
   set_order (get_all_nodes small_network) [''A'', ''B'', ''C''] \<and>
   dispatch_query small_order small_network ''B'' [''A'', ''C'']
     = dispatch_query [''A'', ''B'', ''C''] small_network ''B'' [''A'', ''C'']"
proof -
  have o: "set_order (get_all_nodes small_network) [''A'', ''B'', ''C'']"
    by (auto simp: set_order_def get_all_nodes_def collect_vertices_def small_network_def)
  from dispatch_deterministic [OF small_order_ok o, of "''B''" "[''A'', ''C'']", THEN conjunct1]
    small_order_ok o
  show ?thesis by simp
qed

end
